theory Spec2Isabelle
  imports Complex_Main
begin

section \<open>Data model\<close>

text \<open>
  The planner computes with JavaScript numbers. Every millimetre quantity is modelled as
  an exact \<^typ>\<open>real\<close>, so the theorems below speak about the arithmetic the code
  writes down, not about the rounding of each operation. Integer-valued quantities
  (\<open>Math.ceil\<close> results, loop counters) are \<^typ>\<open>int\<close> or \<^typ>\<open>nat\<close>. The
  one place where the double format is modelled is the counter of the column search,
  whose increment stops being exact at \<open>2 ^ 53\<close>.
\<close>

definition EPSILON :: real where
  "EPSILON = 1 / 10000"

definition MAX_SHEET_GRID :: int where
  "MAX_SHEET_GRID = 24"

text \<open>
  \<open>PrintObject\<close> of \<open>types.ts\<close>. The field \<open>id\<close> is called \<open>idStr\<close> here;
  \<open>label\<close> and the texture source fields are never read by the packer or by the
  tiling code (the decoded textures arrive in a separate table, see below).
\<close>

record PrintObject =
  idStr :: string
  widthMm :: real
  heightMm :: real
  xMm :: real
  yMm :: real
  color :: string

text \<open>\<open>PackingPlacement = { xMm, yMm }\<close>.\<close>

record PackingPlacement =
  placeXMm :: real
  placeYMm :: real

text \<open>\<open>Shelf = { yMm, heightMm, usedWidthMm }\<close>.\<close>

record Shelf =
  shelfYMm :: real
  shelfHeightMm :: real
  shelfUsedWidthMm :: real

text \<open>The object literal returned by \<open>packWithinWidth\<close>.\<close>

record Packing =
  packPlacements :: "string \<rightharpoonup> PackingPlacement"
  packTotalHeightMm :: real
  packUsedWidthMm :: real

text \<open>\<open>PackingResult\<close>.\<close>

record PackingResult =
  columns :: int
  rows :: int
  placements :: "string \<rightharpoonup> PackingPlacement"
  layoutWidthMm :: real
  layoutHeightMm :: real
  wasteArea :: real

text \<open>The mutable locals of \<open>packWithinWidth\<close>.\<close>

record PackState =
  shelves :: "Shelf list"
  placed :: "string \<rightharpoonup> PackingPlacement"
  totalHeightMm :: real
  maxUsedWidthMm :: real

section \<open>The shelf packer\<close>

text \<open>
  \<open>remaining < tightestRemaining\<close>, where \<open>tightestRemaining\<close> starts at
  \<open>Number.POSITIVE_INFINITY\<close> (\<open>None\<close>).
\<close>

definition belowTightest :: "real \<Rightarrow> real option \<Rightarrow> bool" where
  "belowTightest remaining tightestRemaining =
     (case tightestRemaining of None \<Rightarrow> True | Some t \<Rightarrow> remaining < t)"

text \<open>
  One iteration of the inner \<open>for (index ...)\<close> loop; the pair is
  \<open>(bestShelfIndex, tightestRemaining)\<close>.
\<close>

definition scanShelf ::
  "Shelf list \<Rightarrow> PrintObject \<Rightarrow> real \<Rightarrow> nat \<Rightarrow> int \<times> real option \<Rightarrow> int \<times> real option" where
  "scanShelf shs rect maxWidthMm index acc =
     (let shelf = shs ! index;
          projectedWidth = shelfUsedWidthMm shelf + widthMm rect
      in if projectedWidth \<le> maxWidthMm + EPSILON then
           (let remaining = maxWidthMm - projectedWidth
            in if belowTightest remaining (snd acc) then (int index, Some remaining) else acc)
         else acc)"

definition bestShelfIndex :: "Shelf list \<Rightarrow> PrintObject \<Rightarrow> real \<Rightarrow> int" where
  "bestShelfIndex shs rect maxWidthMm =
     fst (fold (scanShelf shs rect maxWidthMm) [0..<length shs] (- 1, None))"

text \<open>\<open>shelves[i].yMm += deltaHeight\<close> for one index \<open>i\<close>.\<close>

definition shiftShelf :: "real \<Rightarrow> nat \<Rightarrow> Shelf list \<Rightarrow> Shelf list" where
  "shiftShelf deltaHeight i shs = shs[i := (shs ! i)\<lparr>shelfYMm := shelfYMm (shs ! i) + deltaHeight\<rparr>]"

text \<open>
  The body of the \<open>for (const rect of rectangles)\<close> loop. \<open>None\<close> is the early
  \<open>return null\<close>.
\<close>

definition packRect :: "real \<Rightarrow> PackState \<Rightarrow> PrintObject \<Rightarrow> PackState option" where
  "packRect maxWidthMm st rect =
     (if widthMm rect > maxWidthMm + EPSILON then None
      else
        let best = bestShelfIndex (shelves st) rect maxWidthMm
        in if best = - 1 then
             (let newShelf = \<lparr>shelfYMm = totalHeightMm st,
                              shelfHeightMm = heightMm rect,
                              shelfUsedWidthMm = widthMm rect\<rparr>
              in Some \<lparr>shelves = shelves st @ [newShelf],
                       placed = (placed st)(idStr rect \<mapsto>
                                  \<lparr>placeXMm = 0, placeYMm = shelfYMm newShelf\<rparr>),
                       totalHeightMm = totalHeightMm st + heightMm rect,
                       maxUsedWidthMm = max (maxUsedWidthMm st) (widthMm rect)\<rparr>)
           else
             (let i = nat best;
                  shelf = shelves st ! i;
                  placementX = shelfUsedWidthMm shelf;
                  placed' = (placed st)(idStr rect \<mapsto>
                               \<lparr>placeXMm = placementX, placeYMm = shelfYMm shelf\<rparr>);
                  shelf' = shelf\<lparr>shelfUsedWidthMm := shelfUsedWidthMm shelf + widthMm rect\<rparr>;
                  maxUsed' = max (maxUsedWidthMm st) (shelfUsedWidthMm shelf')
              in if heightMm rect > shelfHeightMm shelf' then
                   (let deltaHeight = heightMm rect - shelfHeightMm shelf';
                        shelf'' = shelf'\<lparr>shelfHeightMm := heightMm rect\<rparr>
                    in Some \<lparr>shelves = fold (shiftShelf deltaHeight)
                                         [i + 1..<length (shelves st)] ((shelves st)[i := shelf'']),
                             placed = placed',
                             totalHeightMm = totalHeightMm st + deltaHeight,
                             maxUsedWidthMm = maxUsed'\<rparr>)
                 else
                   Some \<lparr>shelves = (shelves st)[i := shelf'],
                         placed = placed',
                         totalHeightMm = totalHeightMm st,
                         maxUsedWidthMm = maxUsed'\<rparr>))"

fun packLoop :: "real \<Rightarrow> PackState \<Rightarrow> PrintObject list \<Rightarrow> PackState option" where
  "packLoop maxWidthMm st [] = Some st"
| "packLoop maxWidthMm st (rect # rest) =
     (case packRect maxWidthMm st rect of
        None \<Rightarrow> None
      | Some st' \<Rightarrow> packLoop maxWidthMm st' rest)"

definition initialPackState :: PackState where
  "initialPackState = \<lparr>shelves = [], placed = Map.empty, totalHeightMm = 0, maxUsedWidthMm = 0\<rparr>"

definition packWithinWidth :: "PrintObject list \<Rightarrow> real \<Rightarrow> Packing option" where
  "packWithinWidth rectangles maxWidthMm =
     (case packLoop maxWidthMm initialPackState rectangles of
        None \<Rightarrow> None
      | Some st \<Rightarrow>
          (let heightExtent =
                 (if length (shelves st) = 0 then 0
                  else shelfYMm (shelves st ! (length (shelves st) - 1))
                       + shelfHeightMm (shelves st ! (length (shelves st) - 1)));
               layoutHeight = max (totalHeightMm st) heightExtent
           in Some \<lparr>packPlacements = placed st,
                    packTotalHeightMm = layoutHeight,
                    packUsedWidthMm = min maxWidthMm (maxUsedWidthMm st)\<rparr>))"

section \<open>The layout optimiser\<close>

text \<open>The comparator handed to \<open>sort\<close>; \<open>x || y\<close> is \<open>y\<close> when \<open>x\<close> is zero.\<close>

definition compareObjects :: "PrintObject \<Rightarrow> PrintObject \<Rightarrow> real" where
  "compareObjects a b =
     (let aKey = max (widthMm a) (heightMm a);
          bKey = max (widthMm b) (heightMm b)
      in if bKey \<noteq> aKey then bKey - aKey
         else if heightMm b - heightMm a \<noteq> 0 then heightMm b - heightMm a
         else widthMm b - widthMm a)"

text \<open>
  \<open>[...objects].sort(cmp)\<close> is a stable sort: an element stays in front of every later
  element it does not compare greater than. Stable insertion computes that arrangement.
\<close>

fun insertObject :: "PrintObject \<Rightarrow> PrintObject list \<Rightarrow> PrintObject list" where
  "insertObject a [] = [a]"
| "insertObject a (b # bs) =
     (if compareObjects a b \<le> 0 then a # b # bs else b # insertObject a bs)"

definition sortObjects :: "PrintObject list \<Rightarrow> PrintObject list" where
  "sortObjects objects = foldr insertObject objects []"

definition totalAreaOf :: "PrintObject list \<Rightarrow> real" where
  "totalAreaOf sortedObjects = foldl (\<lambda>sum rect. sum + widthMm rect * heightMm rect) 0 sortedObjects"

definition maxWidthRequirementOf :: "PrintObject list \<Rightarrow> real" where
  "maxWidthRequirementOf sortedObjects = foldl (\<lambda>m rect. max m (widthMm rect)) 0 sortedObjects"

text \<open>
  \<open>Math.max(1, Math.ceil(maxWidthRequirement / sheetWidthMm))\<close>, the ceiling taken of
  the exact quotient.
\<close>

definition minimumColumnsOf :: "PrintObject list \<Rightarrow> real \<Rightarrow> int" where
  "minimumColumnsOf sortedObjects sheetWidthMm =
     max 1 \<lceil>maxWidthRequirementOf sortedObjects / sheetWidthMm\<rceil>"

definition maximumColumnsOf :: "PrintObject list \<Rightarrow> real \<Rightarrow> int" where
  "maximumColumnsOf sortedObjects sheetWidthMm =
     max (minimumColumnsOf sortedObjects sheetWidthMm) MAX_SHEET_GRID"

text \<open>The record built for one column count whose packing succeeded.\<close>

definition candidate :: "real \<Rightarrow> real \<Rightarrow> real \<Rightarrow> int \<Rightarrow> Packing \<Rightarrow> PackingResult" where
  "candidate totalArea sheetWidthMm sheetHeightMm cols packing =
     (let maxLayoutWidth = of_int cols * sheetWidthMm;
          rws = max 1 \<lceil>packTotalHeightMm packing / sheetHeightMm\<rceil>;
          layoutWidth = min maxLayoutWidth (max sheetWidthMm (packUsedWidthMm packing));
          layoutHeight = max (packTotalHeightMm packing) (of_int rws * sheetHeightMm);
          waste = of_int cols * of_int rws * sheetWidthMm * sheetHeightMm - totalArea
      in \<lparr>columns = cols, rows = rws, placements = packPlacements packing,
          layoutWidthMm = layoutWidth, layoutHeightMm = layoutHeight, wasteArea = waste\<rparr>)"

text \<open>
  The replacement test of the search loop: \<open>c\<close> is the new candidate, \<open>packedHeight\<close>
  is \<open>packing.totalHeightMm\<close>, \<open>best\<close> the incumbent (\<open>None\<close> is \<open>null\<close>).
\<close>

definition replacesBest :: "PackingResult \<Rightarrow> real \<Rightarrow> PackingResult option \<Rightarrow> bool" where
  "replacesBest c packedHeight best =
     (case best of
        None \<Rightarrow> True
      | Some b \<Rightarrow>
          wasteArea c < wasteArea b - 1 / 2 \<or>
          (\<bar>wasteArea c - wasteArea b\<bar> < 1 / 2 \<and>
           (rows c < rows b \<or>
            (rows c = rows b \<and>
             (columns c < columns b \<or>
              (columns c = columns b \<and> packedHeight < layoutHeightMm b))))))"

text \<open>One iteration of \<open>for (columns = minimumColumns; columns <= maximumColumns; ...)\<close>.\<close>

definition tryColumns ::
  "PrintObject list \<Rightarrow> real \<Rightarrow> real \<Rightarrow> real \<Rightarrow> int \<Rightarrow> PackingResult option
     \<Rightarrow> PackingResult option" where
  "tryColumns sortedObjects totalArea sheetWidthMm sheetHeightMm cols best =
     (case packWithinWidth sortedObjects (of_int cols * sheetWidthMm) of
        None \<Rightarrow> best
      | Some packing \<Rightarrow>
          (let c = candidate totalArea sheetWidthMm sheetHeightMm cols packing
           in if replacesBest c (packTotalHeightMm packing) best then Some c else best))"

text \<open>
  The loop counter \<open>columns\<close> is a double that holds an integer, and \<open>columns += 1\<close> is
  a double addition. The sum is exact up to \<open>2 ^ 53\<close>; a larger sum is rounded to the
  nearest double, a tie going to the neighbour with the even significand.
  \<open>doubleUlp n\<close> is the spacing of the doubles around the integer \<open>n\<close>.
\<close>

fun doubleUlp :: "nat \<Rightarrow> nat" where
  "doubleUlp n = (if n < 2 ^ 53 then 1 else 2 * doubleUlp (n div 2))"

declare doubleUlp.simps [simp del]

definition roundTiesToEven :: "nat \<Rightarrow> nat" where
  "roundTiesToEven n =
     (let u = doubleUlp n; q = n div u; r = n mod u
      in if 2 * r < u then q * u
         else if u < 2 * r then (q + 1) * u
         else if even q then q * u else (q + 1) * u)"

definition addOne :: "int \<Rightarrow> int" where
  "addOne c =
     (if 0 \<le> c + 1 then int (roundTiesToEven (nat (c + 1)))
      else - int (roundTiesToEven (nat (- (c + 1)))))"

text \<open>
  \<open>for (columns = minimumColumns; columns <= maximumColumns; columns += 1)\<close>, entered
  with the counter at \<open>cols\<close> and the incumbent \<open>best\<close>. The result \<open>None\<close> means that
  the loop never ends; \<open>Some best\<close> is the incumbent when the loop is left.
\<close>

partial_function (option) searchColumns ::
  "PrintObject list \<Rightarrow> real \<Rightarrow> real \<Rightarrow> real \<Rightarrow> int \<Rightarrow> int \<Rightarrow> PackingResult option
     \<Rightarrow> PackingResult option option" where
  "searchColumns sortedObjects totalArea sheetWidthMm sheetHeightMm maximumColumns cols best =
     (if cols \<le> maximumColumns then
        searchColumns sortedObjects totalArea sheetWidthMm sheetHeightMm maximumColumns
          (addOne cols) (tryColumns sortedObjects totalArea sheetWidthMm sheetHeightMm cols best)
      else Some best)"

text \<open>
  \<open>optimisePackingLayout\<close>. The outer \<open>option\<close> says whether the call returns at all:
  \<open>None\<close> is a call that never returns, \<open>Some None\<close> is \<open>return null\<close>, and
  \<open>Some (Some r)\<close> returns the result \<open>r\<close>.
\<close>

definition optimisePackingLayout ::
  "PrintObject list \<Rightarrow> real \<Rightarrow> real \<Rightarrow> PackingResult option option" where
  "optimisePackingLayout objects sheetWidthMm sheetHeightMm =
     (if length objects = 0 then Some None
      else
        let sortedObjects = sortObjects objects;
            totalArea = totalAreaOf sortedObjects;
            minimumColumns = minimumColumnsOf sortedObjects sheetWidthMm;
            maximumColumns = maximumColumnsOf sortedObjects sheetWidthMm
        in searchColumns sortedObjects totalArea sheetWidthMm sheetHeightMm maximumColumns
             minimumColumns None)"

section \<open>Sheet tiling and texture sampling\<close>

text \<open>\<open>SheetDimensions = { widthMm, heightMm }\<close>.\<close>

record SheetDimensions =
  sdWidthMm :: real
  sdHeightMm :: real

text \<open>
  An entry of the \<open>textures\<close> table: the decoded raster's \<open>naturalWidth\<close> and
  \<open>naturalHeight\<close>. The image handle itself is opaque to the geometry.
\<close>

record Texture =
  widthPx :: nat
  heightPx :: nat

text \<open>The four \<open>inter...\<close> locals computed for one object and one sheet cell.\<close>

record Intersection =
  interLeft :: real
  interTop :: real
  interRight :: real
  interBottom :: real

definition intersectCell :: "PrintObject \<Rightarrow> SheetDimensions \<Rightarrow> nat \<Rightarrow> nat \<Rightarrow> Intersection" where
  "intersectCell object sheet rowIndex columnIndex =
     (let originX = real columnIndex * sdWidthMm sheet;
          originY = real rowIndex * sdHeightMm sheet;
          objectRight = xMm object + widthMm object;
          objectBottom = yMm object + heightMm object
      in \<lparr>interLeft = max (xMm object) originX,
          interTop = max (yMm object) originY,
          interRight = min objectRight (originX + sdWidthMm sheet),
          interBottom = min objectBottom (originY + sdHeightMm sheet)\<rparr>)"

definition interWidth :: "Intersection \<Rightarrow> real" where
  "interWidth i = interRight i - interLeft i"

definition interHeight :: "Intersection \<Rightarrow> real" where
  "interHeight i = interBottom i - interTop i"

text \<open>The source-pixel rectangle handed to \<open>drawImage\<close>, and the scratch canvas size.\<close>

record Crop =
  sxFloat :: real
  syFloat :: real
  sWidthFloat :: real
  sHeightFloat :: real
  canvasWidth :: int
  canvasHeight :: int

text \<open>\<open>Math.round\<close> rounds halves upwards, as \<^const>\<open>round\<close> does.\<close>

definition textureCrop :: "PrintObject \<Rightarrow> Texture \<Rightarrow> Intersection \<Rightarrow> Crop" where
  "textureCrop object texture i =
     (let scaleX = real (widthPx texture) / widthMm object;
          scaleY = real (heightPx texture) / heightMm object;
          sx = max 0 ((interLeft i - xMm object) * scaleX);
          sy = max 0 ((interTop i - yMm object) * scaleY);
          sWidth = max 1 (min (real (widthPx texture) - sx) (interWidth i * scaleX));
          sHeight = max 1 (min (real (heightPx texture) - sy) (interHeight i * scaleY))
      in \<lparr>sxFloat = sx, syFloat = sy, sWidthFloat = sWidth, sHeightFloat = sHeight,
          canvasWidth = max 1 (round sWidth), canvasHeight = max 1 (round sHeight)\<rparr>)"

text \<open>
  A queued draw closure. Both kinds carry the destination rectangle
  \<open>relativeX relativeY interWidth interHeight\<close>; an image segment carries its crop, a
  flat fill the object's colour string.
\<close>

datatype DrawCommand =
  ImageSegment real real real real Crop
| FillRect real real real real string

text \<open>The body of \<open>objects.forEach\<close>: \<open>None\<close> is the early \<open>return\<close>.\<close>

definition drawCommandFor ::
  "(string \<rightharpoonup> Texture) \<Rightarrow> SheetDimensions \<Rightarrow> nat \<Rightarrow> nat \<Rightarrow> PrintObject \<Rightarrow> DrawCommand option" where
  "drawCommandFor textures sheet rowIndex columnIndex object =
     (let originX = real columnIndex * sdWidthMm sheet;
          originY = real rowIndex * sdHeightMm sheet;
          i = intersectCell object sheet rowIndex columnIndex
      in if interWidth i \<le> EPSILON \<or> interHeight i \<le> EPSILON then None
         else
           let relativeX = interLeft i - originX;
               relativeY = interTop i - originY
           in case textures (idStr object) of
                Some texture \<Rightarrow>
                  Some (ImageSegment relativeX relativeY (interWidth i) (interHeight i)
                          (textureCrop object texture i))
              | None \<Rightarrow>
                  Some (FillRect relativeX relativeY (interWidth i) (interHeight i)
                          (color object)))"

definition pushCommand ::
  "(string \<rightharpoonup> Texture) \<Rightarrow> SheetDimensions \<Rightarrow> nat \<Rightarrow> nat \<Rightarrow> PrintObject
     \<Rightarrow> DrawCommand list \<Rightarrow> DrawCommand list" where
  "pushCommand textures sheet rowIndex columnIndex object drawCommands =
     (case drawCommandFor textures sheet rowIndex columnIndex object of
        None \<Rightarrow> drawCommands
      | Some c \<Rightarrow> drawCommands @ [c])"

definition cellCommands ::
  "(string \<rightharpoonup> Texture) \<Rightarrow> PrintObject list \<Rightarrow> SheetDimensions \<Rightarrow> nat \<Rightarrow> nat
     \<Rightarrow> DrawCommand list" where
  "cellCommands textures objects sheet rowIndex columnIndex =
     fold (pushCommand textures sheet rowIndex columnIndex) objects []"

text \<open>
  The PDF document is the list of its pages, each page the commands drawn on it. The
  document constructor starts with one blank page; \<open>addPage\<close> appends a blank page and
  makes it current; drawing goes to the current (last) page.
\<close>

record ExportState =
  hasAnyPage :: bool
  docPages :: "DrawCommand list list"

definition initialExportState :: ExportState where
  "initialExportState = \<lparr>hasAnyPage = False, docPages = [[]]\<rparr>"

definition drawOnCurrentPage :: "DrawCommand list \<Rightarrow> DrawCommand list list \<Rightarrow> DrawCommand list list" where
  "drawOnCurrentPage drawCommands pages = butlast pages @ [last pages @ drawCommands]"

text \<open>The body of the inner \<open>for (columnIndex ...)\<close> loop.\<close>

definition emitCell ::
  "(string \<rightharpoonup> Texture) \<Rightarrow> PrintObject list \<Rightarrow> SheetDimensions \<Rightarrow> nat \<Rightarrow> nat
     \<Rightarrow> ExportState \<Rightarrow> ExportState" where
  "emitCell textures objects sheet rowIndex columnIndex st =
     (let drawCommands = cellCommands textures objects sheet rowIndex columnIndex
      in if length drawCommands > 0 then
           (let st' = (if \<not> hasAnyPage st then st\<lparr>hasAnyPage := True\<rparr>
                       else st\<lparr>docPages := docPages st @ [[]]\<rparr>)
            in st'\<lparr>docPages := drawOnCurrentPage drawCommands (docPages st')\<rparr>)
         else st)"

definition emitRow ::
  "(string \<rightharpoonup> Texture) \<Rightarrow> PrintObject list \<Rightarrow> SheetDimensions \<Rightarrow> nat \<Rightarrow> nat
     \<Rightarrow> ExportState \<Rightarrow> ExportState" where
  "emitRow textures objects sheet cols rowIndex st =
     fold (emitCell textures objects sheet rowIndex) [0..<cols] st"

datatype ExportOutcome =
  AlertNoObjects
| AlertNothingToExport
| Saved "DrawCommand list list"

text \<open>
  \<open>exportLayoutToPdf\<close> from the point where the textures have been loaded into the
  table \<open>textures\<close> (keyed by object id) and the scratch canvas exists.
\<close>

definition exportLayoutToPdf ::
  "(string \<rightharpoonup> Texture) \<Rightarrow> PrintObject list \<Rightarrow> SheetDimensions \<Rightarrow> nat \<Rightarrow> nat
     \<Rightarrow> ExportOutcome" where
  "exportLayoutToPdf textures objects sheet cols rws =
     (if length objects = 0 then AlertNoObjects
      else
        let st = fold (emitRow textures objects sheet cols) [0..<rws] initialExportState
        in if \<not> hasAnyPage st then AlertNothingToExport else Saved (docPages st))"

section \<open>Rectangles as point sets\<close>

text \<open>The destination rectangle \<open>(x, y, width, height)\<close> of a command, relative to its cell.\<close>

fun destRect :: "DrawCommand \<Rightarrow> real \<times> real \<times> real \<times> real" where
  "destRect (ImageSegment x y w h crop) = (x, y, w, h)"
| "destRect (FillRect x y w h colour) = (x, y, w, h)"

text \<open>
  Rectangles are read as half-open point sets \<open>[left, right) \<times> [top, bottom)\<close>.
  \<open>cellCovers\<close> holds when the cell emits a command for the object and the point lies in
  its destination rectangle moved back by the cell origin.
\<close>

definition cellCovers ::
  "(string \<rightharpoonup> Texture) \<Rightarrow> SheetDimensions \<Rightarrow> nat \<Rightarrow> nat \<Rightarrow> PrintObject \<Rightarrow> real \<times> real \<Rightarrow> bool" where
  "cellCovers textures sheet rowIndex columnIndex object p =
     (case drawCommandFor textures sheet rowIndex columnIndex object of
        None \<Rightarrow> False
      | Some cmd \<Rightarrow>
          (case destRect cmd of
             (x, y, w, h) \<Rightarrow>
               real columnIndex * sdWidthMm sheet + x \<le> fst p \<and>
               fst p < real columnIndex * sdWidthMm sheet + x + w \<and>
               real rowIndex * sdHeightMm sheet + y \<le> snd p \<and>
               snd p < real rowIndex * sdHeightMm sheet + y + h))"

definition inObject :: "PrintObject \<Rightarrow> real \<times> real \<Rightarrow> bool" where
  "inObject object p \<longleftrightarrow>
     xMm object \<le> fst p \<and> fst p < xMm object + widthMm object \<and>
     yMm object \<le> snd p \<and> snd p < yMm object + heightMm object"

definition inGrid :: "SheetDimensions \<Rightarrow> nat \<Rightarrow> nat \<Rightarrow> real \<times> real \<Rightarrow> bool" where
  "inGrid sheet cols rws p \<longleftrightarrow>
     0 \<le> fst p \<and> fst p < real cols * sdWidthMm sheet \<and>
     0 \<le> snd p \<and> snd p < real rws * sdHeightMm sheet"

text \<open>The grid coordinates of the cell a point falls into.\<close>

definition columnOf :: "SheetDimensions \<Rightarrow> real \<times> real \<Rightarrow> nat" where
  "columnOf sheet p = nat \<lfloor>fst p / sdWidthMm sheet\<rfloor>"

definition rowOf :: "SheetDimensions \<Rightarrow> real \<times> real \<Rightarrow> nat" where
  "rowOf sheet p = nat \<lfloor>snd p / sdHeightMm sheet\<rfloor>"

section \<open>Pages of the non-empty cells\<close>

text \<open>
  The export state that stands for a list of finished pages: the untouched document
  when there is none yet, the pages themselves otherwise.
\<close>

definition pageState :: "DrawCommand list list \<Rightarrow> ExportState" where
  "pageState pages =
     (if pages = [] then initialExportState else \<lparr>hasAnyPage = True, docPages = pages\<rparr>)"

text \<open>The cells of the grid, in row-major order, that receive at least one command.\<close>

definition nonEmptyCells ::
  "(string \<rightharpoonup> Texture) \<Rightarrow> PrintObject list \<Rightarrow> SheetDimensions \<Rightarrow> nat \<Rightarrow> nat
     \<Rightarrow> (nat \<times> nat) list" where
  "nonEmptyCells textures objects sheet cols rws =
     filter (\<lambda>(rowIndex, columnIndex).
               cellCommands textures objects sheet rowIndex columnIndex \<noteq> [])
       (List.product [0..<rws] [0..<cols])"

section \<open>Which shelf a rectangle lands on\<close>

text \<open>What the width and area arguments need of a shelf: used width and height.\<close>

definition shelfExtents :: "Shelf list \<Rightarrow> (real \<times> real) list" where
  "shelfExtents shs = map (\<lambda>s. (shelfUsedWidthMm s, shelfHeightMm s)) shs"

text \<open>
  The index of the shelf \<open>packRect\<close> puts a rectangle on (the new shelf's index when
  none fits) and the x offset it records for it.
\<close>

definition shelfChosen :: "real \<Rightarrow> PackState \<Rightarrow> PrintObject \<Rightarrow> nat" where
  "shelfChosen maxWidthMm st rect =
     (let best = bestShelfIndex (shelves st) rect maxWidthMm
      in if best = - 1 then length (shelves st) else nat best)"

definition offsetChosen :: "real \<Rightarrow> PackState \<Rightarrow> PrintObject \<Rightarrow> real" where
  "offsetChosen maxWidthMm st rect =
     (let best = bestShelfIndex (shelves st) rect maxWidthMm
      in if best = - 1 then 0 else shelfUsedWidthMm (shelves st ! nat best))"

text \<open>
  The bookkeeping invariant of the shelves: every shelf keeps within the width bound,
  the running total is the sum of the shelf heights, and the rectangles placed so far
  (total area \<open>area\<close>) fit into the shelves' bands.
\<close>

definition shelvesBound :: "real \<Rightarrow> PackState \<Rightarrow> real \<Rightarrow> bool" where
  "shelvesBound maxWidthMm st area \<longleftrightarrow>
     (\<forall>(u, h)\<in>set (shelfExtents (shelves st)). 0 \<le> u \<and> u \<le> maxWidthMm + EPSILON \<and> 0 \<le> h) \<and>
     totalHeightMm st = (\<Sum>(u, h)\<leftarrow>shelfExtents (shelves st). h) \<and>
     area \<le> (\<Sum>(u, h)\<leftarrow>shelfExtents (shelves st). u * h)"

text \<open>The shelf index and x offset of every rectangle, in processing order.\<close>

fun packTrace :: "real \<Rightarrow> PackState \<Rightarrow> PrintObject list \<Rightarrow> (nat \<times> real) list" where
  "packTrace maxWidthMm st [] = []"
| "packTrace maxWidthMm st (rect # rest) =
     (case packRect maxWidthMm st rect of
        None \<Rightarrow> []
      | Some st' \<Rightarrow>
          (shelfChosen maxWidthMm st rect, offsetChosen maxWidthMm st rect)
            # packTrace maxWidthMm st' rest)"

definition shelfOf :: "PrintObject list \<Rightarrow> real \<Rightarrow> nat \<Rightarrow> nat" where
  "shelfOf rectangles maxWidthMm k = fst (packTrace maxWidthMm initialPackState rectangles ! k)"

section \<open>Example inputs\<close>

text \<open>Three rectangles packed into the width of one A4 sheet.\<close>

definition scenarioA :: "PrintObject list" where
  "scenarioA =
     [\<lparr>idStr = ''a'', widthMm = 100, heightMm = 50, xMm = 0, yMm = 0, color = ''#5c6ac4''\<rparr>,
      \<lparr>idStr = ''b'', widthMm = 100, heightMm = 50, xMm = 0, yMm = 0, color = ''#47a3f3''\<rparr>,
      \<lparr>idStr = ''c'', widthMm = 100, heightMm = 100, xMm = 0, yMm = 0, color = ''#ec8c69''\<rparr>]"


definition square300 :: PrintObject where
  "square300 = \<lparr>idStr = ''square'', widthMm = 300, heightMm = 300, xMm = 0, yMm = 0,
                   color = ''#a364d9''\<rparr>"

text \<open>
  A 2 m strip carrying a 10 by 10 pixel thumbnail as texture, tiled over square sheets of
  100 mm: every sheet sees half a source pixel.
\<close>

definition stripObject :: PrintObject where
  "stripObject = \<lparr>idStr = ''strip'', widthMm = 2000, heightMm = 100, xMm = 0, yMm = 0,
                    color = ''#fcda59''\<rparr>"

definition thumbnail :: Texture where
  "thumbnail = \<lparr>widthPx = 10, heightPx = 10\<rparr>"

definition squareSheet :: SheetDimensions where
  "squareSheet = \<lparr>sdWidthMm = 100, sdHeightMm = 100\<rparr>"

text \<open>
  An object that sticks 0.00005 mm into the second sheet, and one dragged to the left of
  the whole grid.
\<close>

definition sliverObject :: PrintObject where
  "sliverObject = \<lparr>idStr = ''sliver'', widthMm = 100 + 5 / 100000, heightMm = 100,
                     xMm = 0, yMm = 0, color = ''#ec8c69''\<rparr>"

definition farAwayObject :: PrintObject where
  "farAwayObject = \<lparr>idStr = ''stray'', widthMm = 200, heightMm = 100, xMm = - 300, yMm = 0,
                      color = ''#5c6ac4''\<rparr>"

text \<open>
  Two ribbons of 50.00004 mm by 12.5 m for sheets of 100 mm, and four pieces, already in
  the optimiser's order, where the last one is taller than the shelf it joins.
\<close>

definition ribbonPair :: "PrintObject list" where
  "ribbonPair =
     [\<lparr>idStr = ''left'', widthMm = 50 + 4 / 100000, heightMm = 12500, xMm = 0, yMm = 0,
       color = ''#5c6ac4''\<rparr>,
      \<lparr>idStr = ''right'', widthMm = 50 + 4 / 100000, heightMm = 12500, xMm = 0, yMm = 0,
       color = ''#47a3f3''\<rparr>]"

definition growthInput :: "PrintObject list" where
  "growthInput =
     [\<lparr>idStr = ''a'', widthMm = 100, heightMm = 10, xMm = 0, yMm = 0, color = ''#5c6ac4''\<rparr>,
      \<lparr>idStr = ''b'', widthMm = 90, heightMm = 10, xMm = 0, yMm = 0, color = ''#47a3f3''\<rparr>,
      \<lparr>idStr = ''c'', widthMm = 55, heightMm = 10, xMm = 0, yMm = 0, color = ''#ec8c69''\<rparr>,
      \<lparr>idStr = ''d'', widthMm = 20, heightMm = 50, xMm = 0, yMm = 0, color = ''#3f9c84''\<rparr>]"


section \<open>Facts about the column counter\<close>

lemma doubleUlp_small: "n < 2 ^ 53 \<Longrightarrow> doubleUlp n = 1"
  by (simp add: doubleUlp.simps)

lemma doubleUlp_bounds: "1 \<le> n \<Longrightarrow> 1 \<le> doubleUlp n \<and> doubleUlp n \<le> n"
proof (induction n rule: doubleUlp.induct)
  case (1 n)
  show ?case
  proof (cases "n < 2 ^ 53")
    case True
    with "1.prems" show ?thesis by (simp add: doubleUlp_small)
  next
    case False
    then have half: "1 \<le> n div 2" by simp
    from "1.IH" [OF False half] have "1 \<le> doubleUlp (n div 2)" "doubleUlp (n div 2) \<le> n div 2"
      by simp_all
    moreover have "doubleUlp n = 2 * doubleUlp (n div 2)"
      using False by (subst doubleUlp.simps) simp
    ultimately show ?thesis by simp
  qed
qed

lemma roundTiesToEven_exact: "n \<le> 2 ^ 53 \<Longrightarrow> roundTiesToEven n = n"
proof (cases "n < 2 ^ 53")
  case True
  then show ?thesis by (simp add: roundTiesToEven_def doubleUlp_small)
next
  case False
  assume "n \<le> 2 ^ 53"
  with False have n: "n = 2 ^ 53" by simp
  show ?thesis
    unfolding n by (simp add: roundTiesToEven_def doubleUlp.simps Let_def)
qed

lemma roundTiesToEven_pos: "1 \<le> n \<Longrightarrow> 1 \<le> roundTiesToEven n"
proof -
  assume n: "1 \<le> n"
  let ?u = "doubleUlp n"
  from doubleUlp_bounds [OF n] have u: "1 \<le> ?u" "?u \<le> n" by simp_all
  then have "0 < n div ?u" by (simp add: div_greater_zero_iff)
  then have "1 \<le> n div ?u" by simp
  then have "1 * ?u \<le> (n div ?u) * ?u" by (rule mult_le_mono1)
  with u have low: "1 \<le> (n div ?u) * ?u" by simp
  have "(n div ?u) * ?u \<le> roundTiesToEven n"
    by (simp add: roundTiesToEven_def Let_def)
  with low show ?thesis by (rule order_trans)
qed

lemma addOne_exact: "0 \<le> c \<Longrightarrow> c + 1 \<le> 2 ^ 53 \<Longrightarrow> addOne c = c + 1"
proof -
  assume c: "0 \<le> c" "c + 1 \<le> 2 ^ 53"
  then have "nat (c + 1) \<le> 2 ^ 53" by (simp add: nat_le_iff)
  then have "roundTiesToEven (nat (c + 1)) = nat (c + 1)" by (rule roundTiesToEven_exact)
  with c show ?thesis by (simp add: addOne_def)
qed

lemma addOne_pos: "1 \<le> c \<Longrightarrow> 1 \<le> addOne c"
proof -
  assume c: "1 \<le> c"
  then have "1 \<le> nat (c + 1)" by simp
  then have "1 \<le> roundTiesToEven (nat (c + 1))" by (rule roundTiesToEven_pos)
  with c show ?thesis by (simp add: addOne_def)
qed

lemma searchColumns_fold:
  assumes "maximumColumns < 2 ^ 53" and "0 \<le> cols"
  shows "searchColumns so A sw sh maximumColumns cols best
           = Some (fold (tryColumns so A sw sh) [cols..maximumColumns] best)"
  using assms(2)
proof (induction "nat (maximumColumns + 1 - cols)" arbitrary: cols best)
  case 0
  then have "\<not> cols \<le> maximumColumns" by simp
  then show ?case by (subst searchColumns.simps) simp
next
  case (Suc k)
  then have le: "cols \<le> maximumColumns" by simp
  with assms(1) Suc.prems have next_col: "addOne cols = cols + 1"
    by (intro addOne_exact) simp_all
  have "searchColumns so A sw sh maximumColumns cols best
          = searchColumns so A sw sh maximumColumns (cols + 1) (tryColumns so A sw sh cols best)"
    using le next_col by (subst searchColumns.simps) simp
  also have "\<dots> = Some (fold (tryColumns so A sw sh) [cols + 1..maximumColumns]
                          (tryColumns so A sw sh cols best))"
    using Suc.hyps(2) Suc.prems by (intro Suc.hyps(1)) simp_all
  also have "\<dots> = Some (fold (tryColumns so A sw sh) [cols..maximumColumns] best)"
    using le by (simp add: upto_rec1 [of cols maximumColumns])
  finally show ?case .
qed

lemma searchColumns_invariant:
  assumes res: "searchColumns so A sw sh maximumColumns cols best = Some r"
    and cols: "1 \<le> cols"
    and start: "\<And>b. best = Some b \<Longrightarrow> P b"
    and cand: "\<And>c packing. 1 \<le> c \<Longrightarrow> packWithinWidth so (of_int c * sw) = Some packing
                 \<Longrightarrow> P (candidate A sw sh c packing)"
    and b: "r = Some b"
  shows "P b"
proof -
  let ?Q = "\<lambda>so A sw sh (maximumColumns :: int) cols best r.
        1 \<le> cols \<longrightarrow> (\<forall>b. best = Some b \<longrightarrow> P b) \<longrightarrow>
        (\<forall>c packing. 1 \<le> c \<longrightarrow> packWithinWidth so (of_int c * sw) = Some packing
            \<longrightarrow> P (candidate A sw sh c packing)) \<longrightarrow>
        (\<forall>b. r = Some b \<longrightarrow> P b)"
  have "?Q so A sw sh maximumColumns cols best r"
  proof (rule searchColumns.raw_induct [where P = ?Q, OF _ res])
    fix loop so A sw sh and maximumColumns cols :: int and best r
    assume IH: "\<And>so A sw sh maximumColumns cols best r.
        loop so A sw sh maximumColumns cols best = Some r
          \<Longrightarrow> ?Q so A sw sh maximumColumns cols best r"
      and step: "(if cols \<le> maximumColumns
                  then loop so A sw sh maximumColumns (addOne cols)
                         (tryColumns so A sw sh cols best)
                  else Some best) = Some r"
    show "?Q so A sw sh maximumColumns cols best r"
    proof (intro impI allI)
      fix b
      assume c1: "1 \<le> cols" and st: "\<forall>b. best = Some b \<longrightarrow> P b"
        and cd: "\<forall>c packing. 1 \<le> c \<longrightarrow> packWithinWidth so (of_int c * sw) = Some packing
            \<longrightarrow> P (candidate A sw sh c packing)"
        and rb: "r = Some b"
      show "P b"
      proof (cases "cols \<le> maximumColumns")
        case False
        with step have "r = best" by simp
        with rb st show ?thesis by simp
      next
        case True
        with step have call: "loop so A sw sh maximumColumns (addOne cols)
            (tryColumns so A sw sh cols best) = Some r"
          by simp
        have st': "\<forall>b. tryColumns so A sw sh cols best = Some b \<longrightarrow> P b"
          using st cd c1
          by (auto simp: tryColumns_def Let_def split: option.splits if_splits)
        from IH [OF call] addOne_pos [OF c1] st' cd rb show ?thesis by blast
      qed
    qed
  qed
  with cols start cand b show ?thesis by blast
qed


section \<open>Facts about the packer\<close>

subsection \<open>Failure and the keys of the placement map\<close>

lemma packRect_None_iff:
  "packRect maxWidthMm st rect = None \<longleftrightarrow> widthMm rect > maxWidthMm + EPSILON"
  by (simp add: packRect_def Let_def)

lemma packLoop_None_iff:
  "packLoop maxWidthMm st rects = None \<longleftrightarrow> (\<exists>rect\<in>set rects. widthMm rect > maxWidthMm + EPSILON)"
proof (induction rects arbitrary: st)
  case Nil
  show ?case by simp
next
  case (Cons rect rest)
  show ?case
  proof (cases "packRect maxWidthMm st rect")
    case None
    then have "widthMm rect > maxWidthMm + EPSILON"
      using packRect_None_iff [of maxWidthMm st rect] by simp
    with None show ?thesis by simp
  next
    case (Some st')
    then have "\<not> widthMm rect > maxWidthMm + EPSILON"
      using packRect_None_iff [of maxWidthMm st rect] by simp
    with Some Cons.IH [of st'] show ?thesis by simp
  qed
qed

lemma packRect_placed_dom:
  "packRect maxWidthMm st rect = Some st' \<Longrightarrow> dom (placed st') = insert (idStr rect) (dom (placed st))"
  by (auto simp: packRect_def Let_def split: if_splits)

lemma packLoop_placed_dom:
  "packLoop maxWidthMm st rects = Some st' \<Longrightarrow> dom (placed st') = dom (placed st) \<union> idStr ` set rects"
proof (induction rects arbitrary: st)
  case Nil
  then show ?case by simp
next
  case (Cons rect rest)
  then obtain st1 where s1: "packRect maxWidthMm st rect = Some st1"
    and s2: "packLoop maxWidthMm st1 rest = Some st'"
    by (auto split: option.splits)
  from Cons.IH [OF s2] packRect_placed_dom [OF s1] show ?case by auto
qed

lemma packWithinWidth_None_iff:
  "packWithinWidth rects maxWidthMm = None \<longleftrightarrow> (\<exists>rect\<in>set rects. widthMm rect > maxWidthMm + EPSILON)"
  using packLoop_None_iff [of maxWidthMm initialPackState rects]
  by (cases "packLoop maxWidthMm initialPackState rects") (auto simp: packWithinWidth_def Let_def)

lemma packWithinWidth_dom:
  "packWithinWidth rects maxWidthMm = Some packing \<Longrightarrow> dom (packPlacements packing) = idStr ` set rects"
proof -
  assume a: "packWithinWidth rects maxWidthMm = Some packing"
  then obtain st where st: "packLoop maxWidthMm initialPackState rects = Some st"
    and p: "packPlacements packing = placed st"
    by (auto simp: packWithinWidth_def Let_def split: option.splits)
  from packLoop_placed_dom [OF st] p show ?thesis by (simp add: initialPackState_def)
qed

text \<open>
  Claim C6. \<open>packWithinWidth\<close> returns \<open>null\<close> exactly when some rectangle of the
  input is wider than \<open>maxWidthMm + EPSILON\<close>. When it succeeds, the keys of the
  returned placement map are exactly the ids of the input rectangles, so with unique ids
  (as the data model requires) the map has one entry per input rectangle.
\<close>

theorem packWithinWidth_NoFit_iff_and_entries:
  "(packWithinWidth rectangles maxWidthMm = None \<longleftrightarrow>
      (\<exists>rect\<in>set rectangles. widthMm rect > maxWidthMm + EPSILON)) \<and>
   (\<forall>packing. packWithinWidth rectangles maxWidthMm = Some packing \<longrightarrow>
      dom (packPlacements packing) = idStr ` set rectangles \<and>
      (distinct (map idStr rectangles) \<longrightarrow>
         card (dom (packPlacements packing)) = length rectangles))"
proof (intro conjI allI impI)
  show "packWithinWidth rectangles maxWidthMm = None \<longleftrightarrow>
      (\<exists>rect\<in>set rectangles. widthMm rect > maxWidthMm + EPSILON)"
    by (rule packWithinWidth_None_iff)
next
  fix packing
  assume a: "packWithinWidth rectangles maxWidthMm = Some packing"
  then show d: "dom (packPlacements packing) = idStr ` set rectangles"
    by (rule packWithinWidth_dom)
  assume "distinct (map idStr rectangles)"
  then have "card (idStr ` set rectangles) = length rectangles"
    using distinct_card [of "map idStr rectangles"] by simp
  with d show "card (dom (packPlacements packing)) = length rectangles" by simp
qed

theorem packWithinWidth_NoFit_iff_and_entries_witness:
  "\<exists>packing. packWithinWidth scenarioA 210 = Some packing \<and>
     dom (packPlacements packing) = {''a'', ''b'', ''c''} \<and>
     card (dom (packPlacements packing)) = 3"
proof -
  have fit: "\<not> (\<exists>rect\<in>set scenarioA. widthMm rect > 210 + EPSILON)"
    by (simp add: scenarioA_def EPSILON_def)
  have dist: "distinct (map idStr scenarioA)"
    by (simp add: scenarioA_def)
  from fit packWithinWidth_NoFit_iff_and_entries [of scenarioA 210]
  obtain packing where p: "packWithinWidth scenarioA 210 = Some packing" by auto
  with dist packWithinWidth_NoFit_iff_and_entries [of scenarioA 210]
  have "dom (packPlacements packing) = idStr ` set scenarioA"
    and "card (dom (packPlacements packing)) = length scenarioA" by auto
  then have "dom (packPlacements packing) = {''a'', ''b'', ''c''}"
    and "card (dom (packPlacements packing)) = 3"
    by (auto simp: scenarioA_def)
  with p show ?thesis by blast
qed

subsection \<open>One step of the packer\<close>

lemmas pack_eval =
  packWithinWidth_def packRect_def bestShelfIndex_def scanShelf_def belowTightest_def
  shiftShelf_def initialPackState_def shelfChosen_def offsetChosen_def shelfOf_def
  EPSILON_def Let_def upt_rec

lemma length_shelfExtents [simp]: "length (shelfExtents shs) = length shs"
  by (simp add: shelfExtents_def)

lemma shelfExtents_nth:
  "i < length shs \<Longrightarrow> shelfExtents shs ! i = (shelfUsedWidthMm (shs ! i), shelfHeightMm (shs ! i))"
  by (simp add: shelfExtents_def)

lemma shelfExtents_shiftShelf: "shelfExtents (shiftShelf d i shs) = shelfExtents shs"
proof (cases "i < length shs")
  case True
  then show ?thesis
    by (simp add: shiftShelf_def shelfExtents_def map_update list_update_same_conv)
next
  case False
  then show ?thesis by (simp add: shiftShelf_def list_update_beyond)
qed

lemma shelfExtents_fold_shiftShelf: "shelfExtents (fold (shiftShelf d) is shs) = shelfExtents shs"
  by (induction "is" arbitrary: shs) (simp_all add: shelfExtents_shiftShelf)

lemma scanShelf_cases:
  "scanShelf shs rect mw index acc = acc \<or>
   (fst (scanShelf shs rect mw index acc) = int index \<and>
    shelfUsedWidthMm (shs ! index) + widthMm rect \<le> mw + EPSILON)"
  by (simp add: scanShelf_def Let_def)

lemma fold_scanShelf_cases:
  assumes "\<forall>index\<in>set indices. index < length shs"
    and "fst acc = - 1 \<or> (\<exists>i<length shs. fst acc = int i \<and>
           shelfUsedWidthMm (shs ! i) + widthMm rect \<le> mw + EPSILON)"
  shows "fst (fold (scanShelf shs rect mw) indices acc) = - 1 \<or>
         (\<exists>i<length shs. fst (fold (scanShelf shs rect mw) indices acc) = int i \<and>
            shelfUsedWidthMm (shs ! i) + widthMm rect \<le> mw + EPSILON)"
  using assms
proof (induction indices arbitrary: acc)
  case Nil
  then show ?case by simp
next
  case (Cons index rest)
  have "fst (scanShelf shs rect mw index acc) = - 1 \<or>
        (\<exists>i<length shs. fst (scanShelf shs rect mw index acc) = int i \<and>
           shelfUsedWidthMm (shs ! i) + widthMm rect \<le> mw + EPSILON)"
    using scanShelf_cases [of shs rect mw index acc] Cons.prems by auto
  with Cons.prems(1) Cons.IH [of "scanShelf shs rect mw index acc"] show ?case by simp
qed

lemma bestShelfIndex_cases:
  "bestShelfIndex shs rect mw = - 1 \<or>
   (\<exists>i<length shs. bestShelfIndex shs rect mw = int i \<and>
      shelfUsedWidthMm (shs ! i) + widthMm rect \<le> mw + EPSILON)"
  unfolding bestShelfIndex_def
  by (rule fold_scanShelf_cases) simp_all

lemma packRect_new_shelf:
  assumes "packRect mw st rect = Some st1" and "bestShelfIndex (shelves st) rect mw = - 1"
  shows "widthMm rect \<le> mw + EPSILON"
    and "shelfExtents (shelves st1) = shelfExtents (shelves st) @ [(widthMm rect, heightMm rect)]"
    and "totalHeightMm st1 = totalHeightMm st + heightMm rect"
    and "placed st1 = (placed st)(idStr rect \<mapsto> \<lparr>placeXMm = 0, placeYMm = totalHeightMm st\<rparr>)"
  using assms
  by (auto simp: packRect_def Let_def shelfExtents_def split: if_splits)

lemma packRect_existing_shelf:
  assumes "packRect mw st rect = Some st1" and "bestShelfIndex (shelves st) rect mw = int i"
    and "i < length (shelves st)"
  shows "shelfExtents (shelves st1) =
           (shelfExtents (shelves st))
             [i := (shelfUsedWidthMm (shelves st ! i) + widthMm rect,
                    max (shelfHeightMm (shelves st ! i)) (heightMm rect))]"
    and "totalHeightMm st1 = totalHeightMm st
           + (max (shelfHeightMm (shelves st ! i)) (heightMm rect) - shelfHeightMm (shelves st ! i))"
    and "placed st1 = (placed st)(idStr rect \<mapsto>
           \<lparr>placeXMm = shelfUsedWidthMm (shelves st ! i), placeYMm = shelfYMm (shelves st ! i)\<rparr>)"
  using assms
  by (auto simp: packRect_def Let_def shelfExtents_fold_shiftShelf split: if_splits)
     (simp_all add: shelfExtents_def map_update max_def)


lemma sum_list_map_update:
  "i < length xs \<Longrightarrow> sum_list (map f (xs[i := v])) = sum_list (map f xs) - f (xs ! i) + f v"
  for f :: "'a \<Rightarrow> real"
proof (induction xs arbitrary: i)
  case Nil
  then show ?case by simp
next
  case (Cons x xs)
  then show ?case by (cases i) simp_all
qed

lemma grown_shelf_area:
  fixes u h w g :: real
  assumes "0 \<le> u" "0 \<le> h" "0 \<le> w" "0 \<le> g"
  shows "u * h + w * g \<le> (u + w) * max h g"
proof -
  have "u * h \<le> u * max h g" using assms(1) by (intro mult_left_mono) simp_all
  moreover have "w * g \<le> w * max h g" using assms(3) by (intro mult_left_mono) simp_all
  ultimately show ?thesis by (simp add: algebra_simps)
qed

lemma shelvesBound_packRect:
  assumes inv: "shelvesBound mw st area"
    and step: "packRect mw st rect = Some st1"
    and w: "0 \<le> widthMm rect" and h: "0 \<le> heightMm rect"
  shows "shelvesBound mw st1 (area + widthMm rect * heightMm rect)"
proof -
  let ?ext = "shelfExtents (shelves st)"
  from inv have b: "\<And>u g. (u, g) \<in> set ?ext \<Longrightarrow> 0 \<le> u \<and> u \<le> mw + EPSILON \<and> 0 \<le> g"
    and t: "totalHeightMm st = (\<Sum>(u, h)\<leftarrow>?ext. h)"
    and a: "area \<le> (\<Sum>(u, h)\<leftarrow>?ext. u * h)"
    by (auto simp: shelvesBound_def)
  from bestShelfIndex_cases [of "shelves st" rect mw] show ?thesis
  proof (elim disjE exE conjE)
    assume best: "bestShelfIndex (shelves st) rect mw = - 1"
    note new = packRect_new_shelf [OF step best]
    show ?thesis
      unfolding shelvesBound_def new(2) new(3)
      using b t a w h new(1) by auto
  next
    fix i
    assume i: "i < length (shelves st)"
      and best: "bestShelfIndex (shelves st) rect mw = int i"
      and fits: "shelfUsedWidthMm (shelves st ! i) + widthMm rect \<le> mw + EPSILON"
    note old = packRect_existing_shelf [OF step best i]
    let ?u = "shelfUsedWidthMm (shelves st ! i)"
    let ?g = "shelfHeightMm (shelves st ! i)"
    have nth: "?ext ! i = (?u, ?g)" using i by (rule shelfExtents_nth)
    have mem: "(?u, ?g) \<in> set ?ext"
      using i nth nth_mem [of i ?ext] by simp
    from b [OF mem] have ug: "0 \<le> ?u" "0 \<le> ?g" by simp_all
    have bounds: "0 \<le> u \<and> u \<le> mw + EPSILON \<and> 0 \<le> g"
      if "(u, g) \<in> set (?ext[i := (?u + widthMm rect, max ?g (heightMm rect))])" for u g
    proof -
      from that set_update_subset_insert [of ?ext i "(?u + widthMm rect, max ?g (heightMm rect))"]
      have "(u, g) = (?u + widthMm rect, max ?g (heightMm rect)) \<or> (u, g) \<in> set ?ext"
        by auto
      then show ?thesis
        using b [of u g] ug w h fits by auto
    qed
    have heights: "(\<Sum>(u, h)\<leftarrow>?ext[i := (?u + widthMm rect, max ?g (heightMm rect))]. h)
        = (\<Sum>(u, h)\<leftarrow>?ext. h) + (max ?g (heightMm rect) - ?g)"
      using i by (simp add: sum_list_map_update nth)
    have areas: "(\<Sum>(u, h)\<leftarrow>?ext[i := (?u + widthMm rect, max ?g (heightMm rect))]. u * h)
        = (\<Sum>(u, h)\<leftarrow>?ext. u * h) - ?u * ?g + (?u + widthMm rect) * max ?g (heightMm rect)"
      using i by (simp add: sum_list_map_update nth)
    have "?u * ?g + widthMm rect * heightMm rect \<le> (?u + widthMm rect) * max ?g (heightMm rect)"
      using ug(1) ug(2) w h by (rule grown_shelf_area)
    with a have area': "area + widthMm rect * heightMm rect
        \<le> (\<Sum>(u, h)\<leftarrow>?ext. u * h) - ?u * ?g + (?u + widthMm rect) * max ?g (heightMm rect)"
      by linarith
    show ?thesis
      unfolding shelvesBound_def old(1) old(2) heights areas
      using bounds t area' by auto
  qed
qed

lemma shelvesBound_packLoop:
  assumes "shelvesBound mw st area"
    and "packLoop mw st rects = Some st'"
    and "\<forall>rect\<in>set rects. 0 \<le> widthMm rect \<and> 0 \<le> heightMm rect"
  shows "shelvesBound mw st' (area + (\<Sum>rect\<leftarrow>rects. widthMm rect * heightMm rect))"
  using assms
proof (induction rects arbitrary: st area)
  case Nil
  then show ?case by simp
next
  case (Cons rect rest)
  from Cons.prems(2) obtain st1 where s1: "packRect mw st rect = Some st1"
    and s2: "packLoop mw st1 rest = Some st'"
    by (auto split: option.splits)
  have "shelvesBound mw st1 (area + widthMm rect * heightMm rect)"
    using Cons.prems(1) s1 Cons.prems(3) by (intro shelvesBound_packRect) simp_all
  from Cons.IH [OF this s2] Cons.prems(3) show ?case by (simp add: add.assoc)
qed

lemma sum_list_heights_scaled:
  "(\<Sum>(u, h)\<leftarrow>xs. c * h) = c * (\<Sum>(u, h)\<leftarrow>xs. h)" for c :: real
  by (induction xs) (auto simp: algebra_simps)

lemma shelvesBound_area:
  assumes "shelvesBound mw st area"
  shows "area \<le> (mw + EPSILON) * totalHeightMm st"
proof -
  let ?ext = "shelfExtents (shelves st)"
  from assms have b: "\<And>u g. (u, g) \<in> set ?ext \<Longrightarrow> 0 \<le> u \<and> u \<le> mw + EPSILON \<and> 0 \<le> g"
    and t: "totalHeightMm st = (\<Sum>(u, h)\<leftarrow>?ext. h)"
    and a: "area \<le> (\<Sum>(u, h)\<leftarrow>?ext. u * h)"
    by (auto simp: shelvesBound_def)
  have "(\<Sum>(u, h)\<leftarrow>?ext. u * h) \<le> (\<Sum>(u, h)\<leftarrow>?ext. (mw + EPSILON) * h)"
  proof (rule sum_list_mono)
    fix x assume "x \<in> set ?ext"
    with b [of "fst x" "snd x"] show "(case x of (u, h) \<Rightarrow> u * h) \<le> (case x of (u, h) \<Rightarrow> (mw + EPSILON) * h)"
      by (cases x) (simp add: mult_right_mono)
  qed
  also have "\<dots> = (mw + EPSILON) * (\<Sum>(u, h)\<leftarrow>?ext. h)"
    by (rule sum_list_heights_scaled)
  finally show ?thesis using a t by simp
qed

lemma packWithinWidth_area:
  assumes "packWithinWidth rects mw = Some packing"
    and "\<forall>rect\<in>set rects. 0 \<le> widthMm rect \<and> 0 \<le> heightMm rect"
    and "0 \<le> mw + EPSILON"
  shows "(\<Sum>rect\<leftarrow>rects. widthMm rect * heightMm rect) \<le> (mw + EPSILON) * packTotalHeightMm packing"
proof -
  from assms(1) obtain st where st: "packLoop mw initialPackState rects = Some st"
    and p: "totalHeightMm st \<le> packTotalHeightMm packing"
    by (auto simp: packWithinWidth_def Let_def split: option.splits)
  have "shelvesBound mw initialPackState 0"
    by (simp add: shelvesBound_def initialPackState_def shelfExtents_def)
  from shelvesBound_packLoop [OF this st assms(2)]
  have "(\<Sum>rect\<leftarrow>rects. widthMm rect * heightMm rect) \<le> (mw + EPSILON) * totalHeightMm st"
    using shelvesBound_area by fastforce
  also have "\<dots> \<le> (mw + EPSILON) * packTotalHeightMm packing"
    using p assms(3) by (rule mult_left_mono)
  finally show ?thesis .
qed

subsection \<open>Rectangles on one shelf\<close>


lemma used_via_extents:
  "s < length shs \<Longrightarrow> shelfUsedWidthMm (shs ! s) = fst (shelfExtents shs ! s)"
  by (simp add: shelfExtents_nth)

lemma length_shelves_via_extents: "length shs = length (shelfExtents shs)"
  by simp

lemma packRect_chosen:
  assumes step: "packRect mw st rect = Some st1"
  shows "shelfChosen mw st rect < length (shelves st1)"
    and "shelfUsedWidthMm (shelves st1 ! shelfChosen mw st rect)
           = offsetChosen mw st rect + widthMm rect"
    and "offsetChosen mw st rect + widthMm rect \<le> mw + EPSILON"
    and "\<exists>p. placed st1 (idStr rect) = Some p \<and> placeXMm p = offsetChosen mw st rect"
    and "shelfChosen mw st rect < length (shelves st) \<Longrightarrow>
           shelfUsedWidthMm (shelves st ! shelfChosen mw st rect) = offsetChosen mw st rect"
proof -
  from bestShelfIndex_cases [of "shelves st" rect mw]
  have "(shelfChosen mw st rect < length (shelves st1) \<and>
         shelfUsedWidthMm (shelves st1 ! shelfChosen mw st rect)
           = offsetChosen mw st rect + widthMm rect) \<and>
        offsetChosen mw st rect + widthMm rect \<le> mw + EPSILON \<and>
        (\<exists>p. placed st1 (idStr rect) = Some p \<and> placeXMm p = offsetChosen mw st rect) \<and>
        (shelfChosen mw st rect < length (shelves st) \<longrightarrow>
           shelfUsedWidthMm (shelves st ! shelfChosen mw st rect) = offsetChosen mw st rect)"
  proof (elim disjE exE conjE)
    assume best: "bestShelfIndex (shelves st) rect mw = - 1"
    note new = packRect_new_shelf [OF step best]
    have len: "length (shelves st1) = Suc (length (shelves st))"
      using arg_cong [OF new(2), of length] by simp
    have c: "shelfChosen mw st rect = length (shelves st)"
      and x: "offsetChosen mw st rect = 0"
      using best by (simp_all add: shelfChosen_def offsetChosen_def)
    have "shelfUsedWidthMm (shelves st1 ! length (shelves st)) = widthMm rect"
      using len new(2) by (simp add: used_via_extents nth_append)
    then show ?thesis using c x len new(1) new(4) by simp
  next
    fix i
    assume i: "i < length (shelves st)"
      and best: "bestShelfIndex (shelves st) rect mw = int i"
      and fits: "shelfUsedWidthMm (shelves st ! i) + widthMm rect \<le> mw + EPSILON"
    note old = packRect_existing_shelf [OF step best i]
    have len: "length (shelves st1) = length (shelves st)"
      using arg_cong [OF old(1), of length] by simp
    have c: "shelfChosen mw st rect = i"
      and x: "offsetChosen mw st rect = shelfUsedWidthMm (shelves st ! i)"
      using best by (simp_all add: shelfChosen_def offsetChosen_def)
    have "shelfUsedWidthMm (shelves st1 ! i) = shelfUsedWidthMm (shelves st ! i) + widthMm rect"
      using len i old(1) by (simp add: used_via_extents)
    then show ?thesis using c x len i fits old(3) by simp
  qed
  then show "shelfChosen mw st rect < length (shelves st1)"
    and "shelfUsedWidthMm (shelves st1 ! shelfChosen mw st rect)
           = offsetChosen mw st rect + widthMm rect"
    and "offsetChosen mw st rect + widthMm rect \<le> mw + EPSILON"
    and "\<exists>p. placed st1 (idStr rect) = Some p \<and> placeXMm p = offsetChosen mw st rect"
    and "shelfChosen mw st rect < length (shelves st) \<Longrightarrow>
           shelfUsedWidthMm (shelves st ! shelfChosen mw st rect) = offsetChosen mw st rect"
    by blast+
qed

lemma packRect_used_mono:
  assumes step: "packRect mw st rect = Some st1" and w: "0 \<le> widthMm rect"
  shows "length (shelves st) \<le> length (shelves st1)"
    and "s < length (shelves st) \<Longrightarrow>
           shelfUsedWidthMm (shelves st ! s) \<le> shelfUsedWidthMm (shelves st1 ! s)"
proof -
  from bestShelfIndex_cases [of "shelves st" rect mw]
  have "length (shelves st) \<le> length (shelves st1) \<and>
        (s < length (shelves st) \<longrightarrow>
           shelfUsedWidthMm (shelves st ! s) \<le> shelfUsedWidthMm (shelves st1 ! s))"
  proof (elim disjE exE conjE)
    assume best: "bestShelfIndex (shelves st) rect mw = - 1"
    note new = packRect_new_shelf [OF step best]
    have len: "length (shelves st1) = Suc (length (shelves st))"
      using arg_cong [OF new(2), of length] by simp
    then show ?thesis
      using new(2) by (auto simp: used_via_extents nth_append)
  next
    fix i
    assume i: "i < length (shelves st)"
      and best: "bestShelfIndex (shelves st) rect mw = int i"
    note old = packRect_existing_shelf [OF step best i]
    have len: "length (shelves st1) = length (shelves st)"
      using arg_cong [OF old(1), of length] by simp
    have "shelfUsedWidthMm (shelves st ! s) \<le> shelfUsedWidthMm (shelves st1 ! s)"
      if s: "s < length (shelves st)"
    proof -
      have "shelfUsedWidthMm (shelves st1 ! s) = fst (shelfExtents (shelves st1) ! s)"
        using s len by (intro used_via_extents) simp
      also have "\<dots> = (if s = i then shelfUsedWidthMm (shelves st ! i) + widthMm rect
                         else fst (shelfExtents (shelves st) ! s))"
        unfolding old(1) using s by (simp add: nth_list_update)
      also have "fst (shelfExtents (shelves st) ! s) = shelfUsedWidthMm (shelves st ! s)"
        using s by (simp add: shelfExtents_nth)
      finally show ?thesis using w by (simp split: if_splits)
    qed
    with len show ?thesis by simp
  qed
  then show "length (shelves st) \<le> length (shelves st1)"
    and "s < length (shelves st) \<Longrightarrow>
           shelfUsedWidthMm (shelves st ! s) \<le> shelfUsedWidthMm (shelves st1 ! s)"
    by blast+
qed

lemma packTrace_offsets_after:
  assumes "\<forall>rect\<in>set rects. 0 \<le> widthMm rect"
    and "(s, x) \<in> set (packTrace mw st rects)"
    and "s < length (shelves st)"
  shows "shelfUsedWidthMm (shelves st ! s) \<le> x"
  using assms
proof (induction rects arbitrary: st)
  case Nil
  then show ?case by simp
next
  case (Cons rect rest)
  show ?case
  proof (cases "packRect mw st rect")
    case None
    with Cons.prems(2) show ?thesis by simp
  next
    case (Some st1)
    with Cons.prems(2) have "(s, x) = (shelfChosen mw st rect, offsetChosen mw st rect) \<or>
        (s, x) \<in> set (packTrace mw st1 rest)"
      by simp
    then show ?thesis
    proof
      assume "(s, x) = (shelfChosen mw st rect, offsetChosen mw st rect)"
      with packRect_chosen(5) [OF Some] Cons.prems(3) show ?thesis by simp
    next
      assume tail: "(s, x) \<in> set (packTrace mw st1 rest)"
      have w: "0 \<le> widthMm rect" using Cons.prems(1) by simp
      have "s < length (shelves st1)"
        using packRect_used_mono(1) [OF Some w] Cons.prems(3) by simp
      with Cons.IH [of st1] Cons.prems(1) tail
      have "shelfUsedWidthMm (shelves st1 ! s) \<le> x" by simp
      with packRect_used_mono(2) [OF Some w Cons.prems(3)] show ?thesis by simp
    qed
  qed
qed

lemma packTrace_same_shelf:
  assumes "\<forall>rect\<in>set rects. 0 \<le> widthMm rect"
    and "k < l" and "l < length (packTrace mw st rects)"
    and "fst (packTrace mw st rects ! k) = fst (packTrace mw st rects ! l)"
  shows "snd (packTrace mw st rects ! k) + widthMm (rects ! k) \<le> snd (packTrace mw st rects ! l)"
  using assms
proof (induction rects arbitrary: st k l)
  case Nil
  then show ?case by simp
next
  case (Cons rect rest)
  show ?case
  proof (cases "packRect mw st rect")
    case None
    with Cons.prems(3) show ?thesis by simp
  next
    case (Some st1)
    from Cons.prems(2) obtain l' where l: "l = Suc l'" by (cases l) simp_all
    have tr: "packTrace mw st (rect # rest)
        = (shelfChosen mw st rect, offsetChosen mw st rect) # packTrace mw st1 rest"
      using Some by simp
    have l': "l' < length (packTrace mw st1 rest)"
      using Cons.prems(3) l tr by simp
    show ?thesis
    proof (cases k)
      case 0
      have mem: "packTrace mw st1 rest ! l' \<in> set (packTrace mw st1 rest)"
        using l' by simp
      have same: "fst (packTrace mw st1 rest ! l') = shelfChosen mw st rect"
        using Cons.prems(4) 0 l tr by simp
      have "shelfUsedWidthMm (shelves st1 ! shelfChosen mw st rect)
              \<le> snd (packTrace mw st1 rest ! l')"
      proof (rule packTrace_offsets_after [of rest _ _ mw st1])
        show "\<forall>rect\<in>set rest. 0 \<le> widthMm rect" using Cons.prems(1) by simp
        show "(shelfChosen mw st rect, snd (packTrace mw st1 rest ! l')) \<in> set (packTrace mw st1 rest)"
          using mem same by (metis prod.collapse)
        show "shelfChosen mw st rect < length (shelves st1)"
          by (rule packRect_chosen(1) [OF Some])
      qed
      then show ?thesis
        using packRect_chosen(2) [OF Some] 0 l tr by simp
    next
      case (Suc k')
      have "snd (packTrace mw st1 rest ! k') + widthMm (rest ! k') \<le> snd (packTrace mw st1 rest ! l')"
      proof (rule Cons.IH)
        show "\<forall>rect\<in>set rest. 0 \<le> widthMm rect" using Cons.prems(1) by simp
        show "k' < l'" using Cons.prems(2) Suc l by simp
        show "l' < length (packTrace mw st1 rest)" by (rule l')
        show "fst (packTrace mw st1 rest ! k') = fst (packTrace mw st1 rest ! l')"
          using Cons.prems(4) Suc l tr by simp
      qed
      then show ?thesis using Suc l tr by simp
    qed
  qed
qed

lemma packTrace_within_width:
  assumes "k < length (packTrace mw st rects)"
  shows "snd (packTrace mw st rects ! k) + widthMm (rects ! k) \<le> mw + EPSILON"
  using assms
proof (induction rects arbitrary: st k)
  case Nil
  then show ?case by simp
next
  case (Cons rect rest)
  show ?case
  proof (cases "packRect mw st rect")
    case None
    with Cons.prems show ?thesis by simp
  next
    case (Some st1)
    show ?thesis
    proof (cases k)
      case 0
      with Some packRect_chosen(3) [OF Some] show ?thesis by simp
    next
      case (Suc k')
      with Some Cons.prems Cons.IH [of k' st1] show ?thesis by simp
    qed
  qed
qed

lemma length_packTrace:
  "packLoop mw st rects = Some st' \<Longrightarrow> length (packTrace mw st rects) = length rects"
  by (induction rects arbitrary: st) (auto split: option.splits)

lemma packRect_placed_other:
  "packRect mw st rect = Some st1 \<Longrightarrow> key \<noteq> idStr rect \<Longrightarrow> placed st1 key = placed st key"
  by (auto simp: packRect_def Let_def split: if_splits)

lemma packLoop_placed_other:
  "packLoop mw st rects = Some st' \<Longrightarrow> key \<notin> idStr ` set rects \<Longrightarrow> placed st' key = placed st key"
proof (induction rects arbitrary: st)
  case Nil
  then show ?case by simp
next
  case (Cons rect rest)
  from Cons.prems(1) obtain st1 where s1: "packRect mw st rect = Some st1"
    and s2: "packLoop mw st1 rest = Some st'"
    by (auto split: option.splits)
  have "placed st' key = placed st1 key"
    using Cons.IH [OF s2] Cons.prems(2) by simp
  also have "\<dots> = placed st key"
    using packRect_placed_other [OF s1] Cons.prems(2) by simp
  finally show ?case .
qed

lemma packLoop_placed_trace:
  assumes "packLoop mw st rects = Some st'" and "distinct (map idStr rects)"
    and "k < length rects"
  shows "\<exists>p. placed st' (idStr (rects ! k)) = Some p \<and>
           placeXMm p = snd (packTrace mw st rects ! k)"
  using assms
proof (induction rects arbitrary: st k)
  case Nil
  then show ?case by simp
next
  case (Cons rect rest)
  from Cons.prems(1) obtain st1 where s1: "packRect mw st rect = Some st1"
    and s2: "packLoop mw st1 rest = Some st'"
    by (auto split: option.splits)
  show ?case
  proof (cases k)
    case 0
    have "idStr rect \<notin> idStr ` set rest" using Cons.prems(2) by simp
    from packLoop_placed_other [OF s2 this] packRect_chosen(4) [OF s1] 0 s1
    show ?thesis by simp
  next
    case (Suc k')
    with Cons.prems Cons.IH [OF s2, of k'] s1 show ?thesis by simp
  qed
qed

text \<open>
  Claim C7. In a successful packing of rectangles with unique ids and non-negative
  widths, every rectangle ends at most \<open>EPSILON\<close> past the width bound, and two
  rectangles put on the same shelf occupy disjoint x-ranges \<open>[x, x + width)\<close>.
\<close>

theorem packWithinWidth_shelf_ranges:
  assumes pack: "packWithinWidth rectangles maxWidthMm = Some packing"
    and ids: "distinct (map idStr rectangles)"
    and widths: "\<forall>rect\<in>set rectangles. 0 \<le> widthMm rect"
  shows "(\<forall>k<length rectangles.
            \<exists>p. packPlacements packing (idStr (rectangles ! k)) = Some p \<and>
              placeXMm p + widthMm (rectangles ! k) \<le> maxWidthMm + EPSILON) \<and>
         (\<forall>k<length rectangles. \<forall>l<length rectangles.
            k \<noteq> l \<and> shelfOf rectangles maxWidthMm k = shelfOf rectangles maxWidthMm l \<longrightarrow>
            (\<exists>p q. packPlacements packing (idStr (rectangles ! k)) = Some p \<and>
                   packPlacements packing (idStr (rectangles ! l)) = Some q \<and>
                   {placeXMm p ..< placeXMm p + widthMm (rectangles ! k)} \<inter>
                   {placeXMm q ..< placeXMm q + widthMm (rectangles ! l)} = {}))"
proof -
  let ?tr = "packTrace maxWidthMm initialPackState rectangles"
  from pack obtain st where st: "packLoop maxWidthMm initialPackState rectangles = Some st"
    and pl: "packPlacements packing = placed st"
    by (auto simp: packWithinWidth_def Let_def split: option.splits)
  have len: "length ?tr = length rectangles" using st by (rule length_packTrace)
  have at: "\<exists>p. packPlacements packing (idStr (rectangles ! k)) = Some p \<and> placeXMm p = snd (?tr ! k)"
    if "k < length rectangles" for k
    using packLoop_placed_trace [OF st ids that] pl by simp
  have bound: "snd (?tr ! k) + widthMm (rectangles ! k) \<le> maxWidthMm + EPSILON"
    if "k < length rectangles" for k
    using that len by (intro packTrace_within_width) simp
  have ordered: "snd (?tr ! k) + widthMm (rectangles ! k) \<le> snd (?tr ! l)"
    if "k < l" "l < length rectangles" "fst (?tr ! k) = fst (?tr ! l)" for k l
    using widths that len by (intro packTrace_same_shelf) simp_all
  have disjoint: "{snd (?tr ! k) ..< snd (?tr ! k) + widthMm (rectangles ! k)} \<inter>
                  {snd (?tr ! l) ..< snd (?tr ! l) + widthMm (rectangles ! l)} = {}"
    if "k < length rectangles" "l < length rectangles" "k \<noteq> l" "fst (?tr ! k) = fst (?tr ! l)" for k l
  proof (cases "k < l")
    case True
    from ordered [OF True that(2) that(4)] show ?thesis by auto
  next
    case False
    with that(3) have "l < k" by simp
    from ordered [OF this that(1)] that(4) show ?thesis by auto
  qed
  show ?thesis
  proof (intro conjI allI impI)
    fix k assume k: "k < length rectangles"
    from at [OF k] bound [OF k]
    show "\<exists>p. packPlacements packing (idStr (rectangles ! k)) = Some p \<and>
              placeXMm p + widthMm (rectangles ! k) \<le> maxWidthMm + EPSILON"
      by auto
  next
    fix k l
    assume k: "k < length rectangles" and l: "l < length rectangles"
      and kl: "k \<noteq> l \<and> shelfOf rectangles maxWidthMm k = shelfOf rectangles maxWidthMm l"
    from at [OF k] obtain p where p: "packPlacements packing (idStr (rectangles ! k)) = Some p"
      "placeXMm p = snd (?tr ! k)" by blast
    from at [OF l] obtain q where q: "packPlacements packing (idStr (rectangles ! l)) = Some q"
      "placeXMm q = snd (?tr ! l)" by blast
    from kl have "fst (?tr ! k) = fst (?tr ! l)" by (simp add: shelfOf_def)
    from disjoint [OF k l _ this] kl p q
    show "\<exists>p q. packPlacements packing (idStr (rectangles ! k)) = Some p \<and>
                   packPlacements packing (idStr (rectangles ! l)) = Some q \<and>
                   {placeXMm p ..< placeXMm p + widthMm (rectangles ! k)} \<inter>
                   {placeXMm q ..< placeXMm q + widthMm (rectangles ! l)} = {}"
      by auto
  qed
qed


theorem packWithinWidth_shelf_ranges_witness:
  "\<exists>packing p q.
     packWithinWidth scenarioA 210 = Some packing \<and>
     shelfOf scenarioA 210 0 = shelfOf scenarioA 210 1 \<and>
     packPlacements packing ''a'' = Some p \<and> packPlacements packing ''b'' = Some q \<and>
     placeXMm q + 100 \<le> 210 + EPSILON \<and>
     {placeXMm p ..< placeXMm p + 100} \<inter> {placeXMm q ..< placeXMm q + 100} = {}"
proof -
  have "packWithinWidth scenarioA 210 \<noteq> None"
    by (simp add: packWithinWidth_None_iff scenarioA_def EPSILON_def)
  then obtain packing where pack: "packWithinWidth scenarioA 210 = Some packing" by auto
  have ids: "distinct (map idStr scenarioA)" by (simp add: scenarioA_def)
  have widths: "\<forall>rect\<in>set scenarioA. 0 \<le> widthMm rect" by (simp add: scenarioA_def)
  have same: "shelfOf scenarioA 210 0 = shelfOf scenarioA 210 1"
    by (simp add: scenarioA_def pack_eval)
  note main = packWithinWidth_shelf_ranges [OF pack ids widths]
  from main [THEN conjunct1, rule_format, of 1]
  obtain q' where q': "packPlacements packing ''b'' = Some q'" "placeXMm q' + 100 \<le> 210 + EPSILON"
    by (auto simp: scenarioA_def)
  from main [THEN conjunct2, rule_format, of 0 1] same
  obtain p q where pq: "packPlacements packing ''a'' = Some p" "packPlacements packing ''b'' = Some q"
    "{placeXMm p ..< placeXMm p + 100} \<inter> {placeXMm q ..< placeXMm q + 100} = {}"
    by (auto simp: scenarioA_def)
  from pq q' have "placeXMm q + 100 \<le> 210 + EPSILON" by simp
  with pack same pq show ?thesis by blast
qed

section \<open>Facts about the optimiser\<close>

lemmas optimiser_eval =
  sortObjects_def compareObjects_def totalAreaOf_def maxWidthRequirementOf_def
  minimumColumnsOf_def maximumColumnsOf_def MAX_SHEET_GRID_def tryColumns_def candidate_def
  replacesBest_def upto.simps

lemma set_insertObject: "set (insertObject a bs) = insert a (set bs)"
  by (induction bs) auto

lemma set_sortObjects: "set (sortObjects objects) = set objects"
  by (induction objects) (simp_all add: sortObjects_def set_insertObject)

lemma foldl_add_sum_list:
  "foldl (\<lambda>sum rect. sum + f rect) z xs = z + sum_list (map f xs)" for z :: real
  by (induction xs arbitrary: z) simp_all

lemma sum_list_insertObject:
  "sum_list (map f (insertObject a bs)) = f a + sum_list (map f bs)" for f :: "PrintObject \<Rightarrow> real"
  by (induction bs) simp_all

lemma sum_list_sortObjects:
  "sum_list (map f (sortObjects objects)) = sum_list (map f objects)" for f :: "PrintObject \<Rightarrow> real"
  by (induction objects) (simp_all add: sortObjects_def sum_list_insertObject)

lemma totalAreaOf_sortObjects:
  "totalAreaOf (sortObjects objects) = (\<Sum>rect\<leftarrow>objects. widthMm rect * heightMm rect)"
  by (simp add: totalAreaOf_def foldl_add_sum_list sum_list_sortObjects)

lemma foldl_max_ge_start: "m \<le> foldl (\<lambda>m rect. max m (widthMm rect)) m xs" for m :: real
proof (induction xs arbitrary: m)
  case Nil
  show ?case by simp
next
  case (Cons x xs)
  have "m \<le> max m (widthMm x)" by simp
  also have "\<dots> \<le> foldl (\<lambda>m rect. max m (widthMm rect)) (max m (widthMm x)) xs"
    by (rule Cons.IH)
  finally show ?case by simp
qed

lemma foldl_max_ge_member:
  "rect \<in> set xs \<Longrightarrow> widthMm rect \<le> foldl (\<lambda>m rect. max m (widthMm rect)) m xs"
proof (induction xs arbitrary: m)
  case Nil
  then show ?case by simp
next
  case (Cons x xs)
  show ?case
  proof (cases "rect = x")
    case True
    have "widthMm x \<le> max m (widthMm x)" by simp
    also have "\<dots> \<le> foldl (\<lambda>m rect. max m (widthMm rect)) (max m (widthMm x)) xs"
      by (rule foldl_max_ge_start)
    finally show ?thesis using True by simp
  next
    case False
    with Cons.prems have "rect \<in> set xs" by simp
    from Cons.IH [OF this] show ?thesis by simp
  qed
qed

lemma foldl_max_le_bound:
  "m \<le> B \<Longrightarrow> \<forall>rect\<in>set xs. widthMm rect \<le> B \<Longrightarrow>
     foldl (\<lambda>m rect. max m (widthMm rect)) m xs \<le> B" for B :: real
  by (induction xs arbitrary: m) simp_all

lemma maxWidthRequirementOf_ge:
  "rect \<in> set objects \<Longrightarrow> widthMm rect \<le> maxWidthRequirementOf (sortObjects objects)"
  unfolding maxWidthRequirementOf_def
  by (rule foldl_max_ge_member) (simp add: set_sortObjects)

lemma maxWidthRequirementOf_le:
  "0 \<le> B \<Longrightarrow> \<forall>rect\<in>set objects. widthMm rect \<le> B \<Longrightarrow>
     maxWidthRequirementOf (sortObjects objects) \<le> B"
  unfolding maxWidthRequirementOf_def
  by (rule foldl_max_le_bound) (simp_all add: set_sortObjects)

lemma minimumColumnsOf_covers:
  assumes "0 < sheetWidthMm"
  shows "maxWidthRequirementOf sortedObjects
           \<le> of_int (minimumColumnsOf sortedObjects sheetWidthMm) * sheetWidthMm"
proof -
  let ?m = "maxWidthRequirementOf sortedObjects"
  have "?m / sheetWidthMm \<le> of_int \<lceil>?m / sheetWidthMm\<rceil>" by (rule le_of_int_ceiling)
  also have "\<dots> \<le> of_int (minimumColumnsOf sortedObjects sheetWidthMm)"
    by (simp add: minimumColumnsOf_def)
  finally have "?m / sheetWidthMm \<le> of_int (minimumColumnsOf sortedObjects sheetWidthMm)" .
  with assms show ?thesis by (simp add: pos_divide_le_eq)
qed

lemma packWithinWidth_at_least_minimumColumns:
  assumes sw: "0 < sheetWidthMm"
    and c: "minimumColumnsOf (sortObjects objects) sheetWidthMm \<le> cols"
  shows "packWithinWidth (sortObjects objects) (of_int cols * sheetWidthMm) \<noteq> None"
proof -
  have "widthMm rect \<le> of_int cols * sheetWidthMm + EPSILON" if "rect \<in> set objects" for rect
  proof -
    have "widthMm rect \<le> maxWidthRequirementOf (sortObjects objects)"
      using that by (rule maxWidthRequirementOf_ge)
    also have "\<dots> \<le> of_int (minimumColumnsOf (sortObjects objects) sheetWidthMm) * sheetWidthMm"
      using sw by (rule minimumColumnsOf_covers)
    also have "\<dots> \<le> of_int cols * sheetWidthMm"
      using sw c by simp
    finally show ?thesis by (simp add: EPSILON_def)
  qed
  then show ?thesis
    by (auto simp: packWithinWidth_None_iff set_sortObjects not_less)
qed

lemma tryColumns_keeps_Some:
  "best \<noteq> None \<Longrightarrow> tryColumns so A sw sh cols best \<noteq> None"
  by (auto simp: tryColumns_def Let_def split: option.splits)

lemma tryColumns_first_feasible:
  "packWithinWidth so (of_int cols * sw) = Some packing \<Longrightarrow>
     tryColumns so A sw sh cols None = Some (candidate A sw sh cols packing)"
  by (simp add: tryColumns_def Let_def replacesBest_def)

lemma tryColumns_feasible_Some:
  "packWithinWidth so (of_int cols * sw) \<noteq> None \<Longrightarrow> tryColumns so A sw sh cols best \<noteq> None"
  by (cases best) (auto simp: tryColumns_first_feasible tryColumns_keeps_Some)

lemma tryColumns_cases:
  "tryColumns so A sw sh cols best = best \<or>
   (\<exists>packing. packWithinWidth so (of_int cols * sw) = Some packing \<and>
      tryColumns so A sw sh cols best = Some (candidate A sw sh cols packing))"
  by (auto simp: tryColumns_def Let_def split: option.splits)

lemma fold_tryColumns_keeps_Some:
  "best \<noteq> None \<Longrightarrow> fold (tryColumns so A sw sh) cs best \<noteq> None"
proof (induction cs arbitrary: best)
  case Nil
  then show ?case by simp
next
  case (Cons d ds)
  from Cons.prems have "tryColumns so A sw sh d best \<noteq> None"
    by (rule tryColumns_keeps_Some)
  then have "fold (tryColumns so A sw sh) ds (tryColumns so A sw sh d best) \<noteq> None"
    by (rule Cons.IH)
  then show ?case by simp
qed

lemma fold_tryColumns_feasible:
  "c \<in> set cs \<Longrightarrow> packWithinWidth so (of_int c * sw) \<noteq> None \<Longrightarrow>
     fold (tryColumns so A sw sh) cs best \<noteq> None"
proof (induction cs arbitrary: best)
  case Nil
  then show ?case by simp
next
  case (Cons d ds)
  show ?case
  proof (cases "c = d")
    case True
    with Cons.prems have "tryColumns so A sw sh d best \<noteq> None"
      by (intro tryColumns_feasible_Some) simp
    then have "fold (tryColumns so A sw sh) ds (tryColumns so A sw sh d best) \<noteq> None"
      by (rule fold_tryColumns_keeps_Some)
    then show ?thesis by simp
  next
    case False
    with Cons.prems have "c \<in> set ds" by simp
    from Cons.IH [OF this Cons.prems(2)] show ?thesis by simp
  qed
qed

lemma fold_tryColumns_invariant:
  assumes cand: "\<And>c packing. c \<in> set cs \<Longrightarrow> packWithinWidth so (of_int c * sw) = Some packing
                   \<Longrightarrow> P (candidate A sw sh c packing)"
    and start: "\<And>b. best = Some b \<Longrightarrow> P b"
    and res: "fold (tryColumns so A sw sh) cs best = Some r"
  shows "P r"
  using assms
proof (induction cs arbitrary: best)
  case Nil
  then show ?case by simp
next
  case (Cons d ds)
  have step: "P b" if "tryColumns so A sw sh d best = Some b" for b
    using tryColumns_cases [of so A sw sh d best] that Cons.prems(1) [of d] Cons.prems(2)
    by auto
  show ?case
  proof (rule Cons.IH [of "tryColumns so A sw sh d best"])
    show "P (candidate A sw sh c packing)"
      if "c \<in> set ds" "packWithinWidth so (of_int c * sw) = Some packing" for c packing
      using that Cons.prems(1) [of c packing] by simp
    show "P b" if "tryColumns so A sw sh d best = Some b" for b
      using that by (rule step)
    show "fold (tryColumns so A sw sh) ds (tryColumns so A sw sh d best) = Some r"
      using Cons.prems(3) by simp
  qed
qed

lemma candidate_fields:
  "columns (candidate A sw sh cols packing) = cols"
  "rows (candidate A sw sh cols packing) = max 1 \<lceil>packTotalHeightMm packing / sh\<rceil>"
  "placements (candidate A sw sh cols packing) = packPlacements packing"
  "wasteArea (candidate A sw sh cols packing) =
     of_int cols * of_int (max 1 \<lceil>packTotalHeightMm packing / sh\<rceil>) * sw * sh - A"
  by (simp_all add: candidate_def Let_def)

lemma minimum_le_maximum:
  "minimumColumnsOf so sw \<le> maximumColumnsOf so sw"
  by (simp add: maximumColumnsOf_def)

lemma one_le_minimumColumnsOf: "1 \<le> minimumColumnsOf so sw"
  by (simp add: minimumColumnsOf_def)

lemma optimisePackingLayout_nonempty:
  "objects \<noteq> [] \<Longrightarrow>
     optimisePackingLayout objects sw sh =
       searchColumns (sortObjects objects) (totalAreaOf (sortObjects objects)) sw sh
         (maximumColumnsOf (sortObjects objects) sw) (minimumColumnsOf (sortObjects objects) sw)
         None"
  by (simp add: optimisePackingLayout_def Let_def)

lemma optimisePackingLayout_fold:
  assumes "objects \<noteq> []" and "maximumColumnsOf (sortObjects objects) sw < 2 ^ 53"
  shows "optimisePackingLayout objects sw sh =
           Some (fold (tryColumns (sortObjects objects) (totalAreaOf (sortObjects objects)) sw sh)
                   [minimumColumnsOf (sortObjects objects) sw..
                    maximumColumnsOf (sortObjects objects) sw] None)"
proof -
  have "0 \<le> minimumColumnsOf (sortObjects objects) sw"
    using one_le_minimumColumnsOf [of "sortObjects objects" sw] by simp
  with assms(2) show ?thesis
    unfolding optimisePackingLayout_nonempty [OF assms(1)] by (rule searchColumns_fold)
qed

lemma optimisePackingLayout_Some:
  assumes "objects \<noteq> []" and "0 < sw"
    and "maximumColumnsOf (sortObjects objects) sw < 2 ^ 53"
  shows "\<exists>res. optimisePackingLayout objects sw sh = Some (Some res)"
proof -
  let ?so = "sortObjects objects"
  have "minimumColumnsOf ?so sw \<in> set [minimumColumnsOf ?so sw..maximumColumnsOf ?so sw]"
    using minimum_le_maximum [of ?so sw] by simp
  moreover have "packWithinWidth ?so (of_int (minimumColumnsOf ?so sw) * sw) \<noteq> None"
    using assms(2) by (rule packWithinWidth_at_least_minimumColumns) simp
  ultimately have "fold (tryColumns ?so (totalAreaOf ?so) sw sh)
      [minimumColumnsOf ?so sw..maximumColumnsOf ?so sw] None \<noteq> None"
    by (rule fold_tryColumns_feasible)
  then obtain res where "fold (tryColumns ?so (totalAreaOf ?so) sw sh)
      [minimumColumnsOf ?so sw..maximumColumnsOf ?so sw] None = Some res"
    by blast
  then show ?thesis
    unfolding optimisePackingLayout_fold [OF assms(1) assms(3)] by blast
qed

lemma optimisePackingLayout_range:
  assumes "optimisePackingLayout objects sw sh = Some (Some res)"
    and "maximumColumnsOf (sortObjects objects) sw < 2 ^ 53"
  shows "minimumColumnsOf (sortObjects objects) sw \<le> columns res \<and>
         columns res \<le> maximumColumnsOf (sortObjects objects) sw \<and> 1 \<le> rows res"
proof -
  have ne: "objects \<noteq> []"
    using assms(1) by (auto simp: optimisePackingLayout_def)
  let ?so = "sortObjects objects"
  let ?P = "\<lambda>r. minimumColumnsOf ?so sw \<le> columns r \<and> columns r \<le> maximumColumnsOf ?so sw \<and>
                 1 \<le> rows r"
  show ?thesis
  proof (rule fold_tryColumns_invariant [where P = ?P and best = None])
    show "fold (tryColumns ?so (totalAreaOf ?so) sw sh)
            [minimumColumnsOf ?so sw..maximumColumnsOf ?so sw] None = Some res"
      using assms(1) unfolding optimisePackingLayout_fold [OF ne assms(2)] by simp
    show "?P (candidate (totalAreaOf ?so) sw sh c packing)"
      if "c \<in> set [minimumColumnsOf ?so sw..maximumColumnsOf ?so sw]" for c packing
      using that by (simp add: candidate_fields)
  qed simp
qed

lemma optimisePackingLayout_result:
  assumes "optimisePackingLayout objects sw sh = Some (Some res)"
  shows "1 \<le> columns res \<and> 1 \<le> rows res \<and>
         wasteArea res = of_int (columns res) * of_int (rows res) * sw * sh
                           - totalAreaOf (sortObjects objects)"
proof -
  have ne: "objects \<noteq> []"
    using assms by (auto simp: optimisePackingLayout_def)
  let ?so = "sortObjects objects"
  let ?P = "\<lambda>r. 1 \<le> columns r \<and> 1 \<le> rows r \<and>
                 wasteArea r = of_int (columns r) * of_int (rows r) * sw * sh - totalAreaOf ?so"
  show ?thesis
  proof (rule searchColumns_invariant [where P = ?P and best = None])
    show "searchColumns ?so (totalAreaOf ?so) sw sh (maximumColumnsOf ?so sw)
            (minimumColumnsOf ?so sw) None = Some (Some res)"
      using assms by (simp only: optimisePackingLayout_nonempty [OF ne])
    show "1 \<le> minimumColumnsOf ?so sw" by (rule one_le_minimumColumnsOf)
    show "?P (candidate (totalAreaOf ?so) sw sh c packing)" if "1 \<le> c" for c packing
      using that by (simp add: candidate_fields)
  qed simp_all
qed


lemma minimumColumnsOf_le_grid:
  assumes "0 < sw" and "\<forall>rect\<in>set objects. widthMm rect \<le> 24 * sw"
  shows "minimumColumnsOf (sortObjects objects) sw \<le> 24"
proof -
  have "maxWidthRequirementOf (sortObjects objects) \<le> 24 * sw"
    using assms by (intro maxWidthRequirementOf_le) simp_all
  with assms(1) have "maxWidthRequirementOf (sortObjects objects) / sw \<le> 24"
    by (simp add: pos_divide_le_eq)
  then have "\<lceil>maxWidthRequirementOf (sortObjects objects) / sw\<rceil> \<le> 24"
    by (simp add: ceiling_le_iff)
  then show ?thesis by (simp add: minimumColumnsOf_def)
qed


text \<open>
  Claim C2. The optimiser returns \<open>null\<close> for the empty list. For a non-empty list whose
  rectangles are all at most \<open>24 * sheetWidthMm\<close> wide it returns a result with
  \<open>1 \<le> columns \<le> 24\<close> and \<open>rows \<ge> 1\<close>.
\<close>

theorem optimisePackingLayout_within_grid:
  "optimisePackingLayout [] sheetWidthMm sheetHeightMm = Some None \<and>
   (objects \<noteq> [] \<and> 0 < sheetWidthMm \<and>
    (\<forall>rect\<in>set objects. widthMm rect \<le> 24 * sheetWidthMm) \<longrightarrow>
      (\<exists>res. optimisePackingLayout objects sheetWidthMm sheetHeightMm = Some (Some res) \<and>
         1 \<le> columns res \<and> columns res \<le> 24 \<and> 1 \<le> rows res))"
proof (intro conjI impI)
  show "optimisePackingLayout [] sheetWidthMm sheetHeightMm = Some None"
    by (simp add: optimisePackingLayout_def)
next
  assume a: "objects \<noteq> [] \<and> 0 < sheetWidthMm \<and>
    (\<forall>rect\<in>set objects. widthMm rect \<le> 24 * sheetWidthMm)"
  let ?so = "sortObjects objects"
  have mx: "maximumColumnsOf ?so sheetWidthMm = 24"
    using a minimumColumnsOf_le_grid [of sheetWidthMm objects]
    by (simp add: maximumColumnsOf_def MAX_SHEET_GRID_def)
  then have small: "maximumColumnsOf ?so sheetWidthMm < 2 ^ 53" by simp
  from a small obtain res
    where res: "optimisePackingLayout objects sheetWidthMm sheetHeightMm = Some (Some res)"
    using optimisePackingLayout_Some [of objects sheetWidthMm sheetHeightMm] by auto
  from optimisePackingLayout_range [OF res small]
  have lo: "minimumColumnsOf ?so sheetWidthMm \<le> columns res"
    and hi: "columns res \<le> maximumColumnsOf ?so sheetWidthMm"
    and rw: "1 \<le> rows res" by simp_all
  have "1 \<le> columns res"
    using lo one_le_minimumColumnsOf [of ?so sheetWidthMm] by simp
  moreover from hi mx have "columns res \<le> 24" by simp
  ultimately show "\<exists>res. optimisePackingLayout objects sheetWidthMm sheetHeightMm = Some (Some res) \<and>
         1 \<le> columns res \<and> columns res \<le> 24 \<and> 1 \<le> rows res"
    using res rw by blast
qed

theorem optimisePackingLayout_within_grid_witness:
  "\<exists>res. optimisePackingLayout [square300] 210 297 = Some (Some res) \<and>
     1 \<le> columns res \<and> columns res \<le> 24 \<and> 1 \<le> rows res"
  using optimisePackingLayout_within_grid [of 210 297 "[square300]"]
  by (simp add: square300_def)



text \<open>
  The statements about rectangles wider than 24 sheets are made for inputs where the
  exact quotient and products of this model stand for the code's doubles: no rectangle
  needs \<open>2 ^ 53\<close> columns or more, so that the loop counter advances, and no rectangle is
  wider than \<open>10 ^ 11\<close> mm, so that the rounding of \<open>columns * sheetWidthMm\<close> (a few parts
  in \<open>2 ^ 53\<close>) stays below the packer's \<open>EPSILON\<close>.
\<close>







subsection \<open>Waste area\<close>


lemma rows_cover_height:
  fixes h sh :: real
  assumes "0 < sh"
  shows "h \<le> of_int (max 1 \<lceil>h / sh\<rceil>) * sh"
proof -
  have "h / sh \<le> of_int \<lceil>h / sh\<rceil>" by (rule le_of_int_ceiling)
  also have "\<dots> \<le> of_int (max 1 \<lceil>h / sh\<rceil>)" by simp
  finally show ?thesis using assms by (simp add: pos_divide_le_eq)
qed

lemma candidate_waste_bound:
  assumes pack: "packWithinWidth so (of_int c * sw) = Some packing"
    and dims: "\<forall>rect\<in>set so. 0 \<le> widthMm rect \<and> 0 \<le> heightMm rect"
    and c: "1 \<le> c" and sw: "0 < sw" and sh: "0 < sh"
  shows "- (EPSILON * (of_int (rows (candidate (totalAreaOf so) sw sh c packing)) * sh))
           \<le> wasteArea (candidate (totalAreaOf so) sw sh c packing)"
proof -
  let ?rows = "max 1 \<lceil>packTotalHeightMm packing / sh\<rceil>"
  let ?mw = "of_int c * sw"
  have mw: "0 \<le> ?mw + EPSILON" using c sw by (simp add: EPSILON_def)
  have "totalAreaOf so = (\<Sum>rect\<leftarrow>so. widthMm rect * heightMm rect)"
    by (simp add: totalAreaOf_def foldl_add_sum_list)
  also have "\<dots> \<le> (?mw + EPSILON) * packTotalHeightMm packing"
    using pack dims mw by (rule packWithinWidth_area)
  also have "\<dots> \<le> (?mw + EPSILON) * (of_int ?rows * sh)"
    using rows_cover_height [OF sh, of "packTotalHeightMm packing"] mw
    by (rule mult_left_mono)
  finally have "totalAreaOf so \<le> (?mw + EPSILON) * (of_int ?rows * sh)" .
  then have "- (EPSILON * (of_int ?rows * sh)) \<le> of_int c * of_int ?rows * sw * sh - totalAreaOf so"
    by (simp add: algebra_simps)
  then show ?thesis by (simp only: candidate_fields)
qed

text \<open>
  Claim C3, as the code has it. The waste of a returned layout is the grid area minus the
  summed area of the input rectangles. It can be negative, but by no more than
  \<open>EPSILON\<close> times the height of the grid: the packer lets a shelf run \<open>EPSILON\<close>
  past the width bound.
\<close>

theorem optimisePackingLayout_wasteArea:
  assumes res: "optimisePackingLayout objects sheetWidthMm sheetHeightMm = Some (Some res)"
    and sw: "0 < sheetWidthMm" and sh: "0 < sheetHeightMm"
    and dims: "\<forall>rect\<in>set objects. 0 \<le> widthMm rect \<and> 0 \<le> heightMm rect"
  shows "wasteArea res =
           of_int (columns res) * of_int (rows res) * sheetWidthMm * sheetHeightMm
             - (\<Sum>rect\<leftarrow>objects. widthMm rect * heightMm rect) \<and>
         - (EPSILON * (of_int (rows res) * sheetHeightMm)) \<le> wasteArea res"
proof -
  have ne: "objects \<noteq> []"
    using res by (auto simp: optimisePackingLayout_def)
  let ?so = "sortObjects objects"
  let ?P = "\<lambda>r. - (EPSILON * (of_int (rows r) * sheetHeightMm)) \<le> wasteArea r"
  have "?P res"
  proof (rule searchColumns_invariant [where P = ?P and best = None])
    show "searchColumns ?so (totalAreaOf ?so) sheetWidthMm sheetHeightMm
            (maximumColumnsOf ?so sheetWidthMm) (minimumColumnsOf ?so sheetWidthMm) None
          = Some (Some res)"
      using res by (simp only: optimisePackingLayout_nonempty [OF ne])
    show "1 \<le> minimumColumnsOf ?so sheetWidthMm" by (rule one_le_minimumColumnsOf)
    show "?P (candidate (totalAreaOf ?so) sheetWidthMm sheetHeightMm c packing)"
      if "1 \<le> c" and "packWithinWidth ?so (of_int c * sheetWidthMm) = Some packing"
      for c packing
    proof (rule candidate_waste_bound [OF that(2) _ that(1) sw sh])
      show "\<forall>rect\<in>set ?so. 0 \<le> widthMm rect \<and> 0 \<le> heightMm rect"
        using dims by (simp add: set_sortObjects)
    qed
  qed simp_all
  moreover have "wasteArea res =
           of_int (columns res) * of_int (rows res) * sheetWidthMm * sheetHeightMm
             - (\<Sum>rect\<leftarrow>objects. widthMm rect * heightMm rect)"
    using optimisePackingLayout_result [OF res] by (simp add: totalAreaOf_sortObjects)
  ultimately show ?thesis by simp
qed

text \<open>
  Claim C3 as written (waste is never meaningfully negative) fails for the two ribbons:
  both go on one shelf of a single column, and the waste is a whole square millimetre
  below zero.
\<close>

theorem optimisePackingLayout_negative_waste:
  "map_option (map_option wasteArea) (optimisePackingLayout ribbonPair 100 100) = Some (Some (- 1))"
proof -
  have small: "maximumColumnsOf (sortObjects ribbonPair) 100 < 2 ^ 53"
    by (simp add: optimiser_eval ribbonPair_def)
  have "optimisePackingLayout ribbonPair 100 100 =
          Some (fold (tryColumns (sortObjects ribbonPair) (totalAreaOf (sortObjects ribbonPair))
                        100 100)
                  [minimumColumnsOf (sortObjects ribbonPair) 100..
                   maximumColumnsOf (sortObjects ribbonPair) 100] None)"
    using small by (intro optimisePackingLayout_fold) (simp add: ribbonPair_def)
  then show ?thesis
    by (simp add: optimiser_eval pack_eval ribbonPair_def)
qed

theorem optimisePackingLayout_wasteArea_witness:
  "\<exists>res. optimisePackingLayout [square300] 210 297 = Some (Some res) \<and>
     wasteArea res = of_int (columns res) * of_int (rows res) * 210 * 297 - 300 * 300 \<and>
     - (EPSILON * (of_int (rows res) * 297)) \<le> wasteArea res"
proof -
  have small: "maximumColumnsOf (sortObjects [square300]) 210 < 2 ^ 53"
    by (simp add: optimiser_eval square300_def)
  have "\<exists>res. optimisePackingLayout [square300] 210 297 = Some (Some res)"
    using small by (intro optimisePackingLayout_Some) simp_all
  then obtain res where res: "optimisePackingLayout [square300] 210 297 = Some (Some res)" by auto
  have dims: "\<forall>rect\<in>set [square300]. 0 \<le> widthMm rect \<and> 0 \<le> heightMm rect"
    by (simp add: square300_def)
  from optimisePackingLayout_wasteArea [OF res _ _ dims] res show ?thesis
    by (simp add: square300_def)
qed

section \<open>Facts about a shelf that grows\<close>

text \<open>
  When a rectangle taller than its shelf is put on an existing shelf \<open>i\<close>, the shelf
  takes the rectangle's height, every later shelf moves down by the difference, and so
  does the running total. The placement map changes only at the new rectangle's id: the
  entries of rectangles already on the later shelves keep the y they were given.
\<close>

lemma length_fold_shiftShelf: "length (fold (shiftShelf d) is shs) = length shs"
  using arg_cong [OF shelfExtents_fold_shiftShelf, of length d "is" shs] by simp

lemma shiftShelf_nth:
  "j < length xs \<Longrightarrow>
     shiftShelf d b xs ! j =
       (if j = b then (xs ! j)\<lparr>shelfYMm := shelfYMm (xs ! j) + d\<rparr> else xs ! j)"
  by (simp add: shiftShelf_def nth_list_update)

lemma fold_shiftShelf_nth:
  "j < length shs \<Longrightarrow>
     fold (shiftShelf d) [a..<b] shs ! j =
       (if a \<le> j \<and> j < b then (shs ! j)\<lparr>shelfYMm := shelfYMm (shs ! j) + d\<rparr> else shs ! j)"
proof (induction b)
  case 0
  then show ?case by simp
next
  case (Suc b)
  show ?case
  proof (cases "a \<le> b")
    case False
    then show ?thesis by simp
  next
    case True
    let ?xs = "fold (shiftShelf d) [a..<b] shs"
    have len: "length ?xs = length shs" by (rule length_fold_shiftShelf)
    have step: "fold (shiftShelf d) [a..<Suc b] shs = shiftShelf d b ?xs"
      using True by simp
    have "shiftShelf d b ?xs ! j =
        (if j = b then (?xs ! j)\<lparr>shelfYMm := shelfYMm (?xs ! j) + d\<rparr> else ?xs ! j)"
      using Suc.prems len by (intro shiftShelf_nth) simp
    with Suc.IH [OF Suc.prems] True show ?thesis
      unfolding step by auto
  qed
qed

lemma packRect_grows_shelf:
  assumes step: "packRect mw st rect = Some st1"
    and best: "bestShelfIndex (shelves st) rect mw = int i"
    and i: "i < length (shelves st)"
    and tall: "shelfHeightMm (shelves st ! i) < heightMm rect"
  shows "length (shelves st1) = length (shelves st)"
    and "shelfHeightMm (shelves st1 ! i) = heightMm rect"
    and "j < length (shelves st) \<Longrightarrow>
           shelfYMm (shelves st1 ! j) =
             (if i < j then shelfYMm (shelves st ! j)
                              + (heightMm rect - shelfHeightMm (shelves st ! i))
              else shelfYMm (shelves st ! j))"
    and "totalHeightMm st1 = totalHeightMm st + (heightMm rect - shelfHeightMm (shelves st ! i))"
    and "key \<noteq> idStr rect \<Longrightarrow> placed st1 key = placed st key"
proof -
  let ?d = "heightMm rect - shelfHeightMm (shelves st ! i)"
  let ?grown = "(shelves st)[i := (shelves st ! i)
      \<lparr>shelfUsedWidthMm := shelfUsedWidthMm (shelves st ! i) + widthMm rect,
       shelfHeightMm := heightMm rect\<rparr>]"
  have sh: "shelves st1 = fold (shiftShelf ?d) [i + 1..<length (shelves st)] ?grown"
    and tot: "totalHeightMm st1 = totalHeightMm st + ?d"
    using step best i tall by (auto simp: packRect_def Let_def split: if_splits)
  show "length (shelves st1) = length (shelves st)"
    unfolding sh by (simp add: length_fold_shiftShelf)
  show "shelfHeightMm (shelves st1 ! i) = heightMm rect"
    unfolding sh using i by (simp add: fold_shiftShelf_nth)
  show "shelfYMm (shelves st1 ! j) =
             (if i < j then shelfYMm (shelves st ! j) + ?d else shelfYMm (shelves st ! j))"
    if "j < length (shelves st)"
    unfolding sh using that i by (auto simp: fold_shiftShelf_nth nth_list_update)
  show "totalHeightMm st1 = totalHeightMm st + ?d" by (rule tot)
  show "placed st1 key = placed st key" if "key \<noteq> idStr rect"
    using step that by (rule packRect_placed_other)
qed

text \<open>
  Claim C8 at a concrete input. Piece \<open>d\<close> (20 by 50) joins shelf 0, whose height was 10;
  shelf 1 moves from y = 10 to y = 50. The recorded placements of \<open>b\<close> and \<open>c\<close>, put on
  shelf 1 earlier, stay at y = 10, so \<open>c\<close> (x from 90 to 145, y from 10 to 20) overlaps
  \<open>d\<close> (x from 100 to 120, y from 0 to 50). The optimiser returns these placements.
\<close>

theorem packWithinWidth_stale_placement_overlap:
  "map_option (\<lambda>packing. map (packPlacements packing) [''a'', ''b'', ''c'', ''d''])
     (packWithinWidth growthInput 150)
   = Some [Some \<lparr>placeXMm = 0, placeYMm = 0\<rparr>, Some \<lparr>placeXMm = 0, placeYMm = 10\<rparr>,
           Some \<lparr>placeXMm = 90, placeYMm = 10\<rparr>, Some \<lparr>placeXMm = 100, placeYMm = 0\<rparr>] \<and>
   map (shelfOf growthInput 150) [0, 1, 2, 3] = [0, 1, 1, 0] \<and>
   map_option (\<lambda>st. map shelfYMm (shelves st)) (packLoop 150 initialPackState growthInput)
   = Some [0, 50] \<and>
   map_option (map_option (\<lambda>res. (columns res, rows res, map (placements res) [''c'', ''d''])))
     (optimisePackingLayout growthInput 150 100)
   = Some (Some (1, 1, [Some \<lparr>placeXMm = 90, placeYMm = 10\<rparr>,
                        Some \<lparr>placeXMm = 100, placeYMm = 0\<rparr>]))"
proof (intro conjI)
  have small: "maximumColumnsOf (sortObjects growthInput) 150 < 2 ^ 53"
    by (simp add: optimiser_eval growthInput_def)
  have "optimisePackingLayout growthInput 150 100 =
          Some (fold (tryColumns (sortObjects growthInput) (totalAreaOf (sortObjects growthInput))
                        150 100)
                  [minimumColumnsOf (sortObjects growthInput) 150..
                   maximumColumnsOf (sortObjects growthInput) 150] None)"
    using small by (intro optimisePackingLayout_fold) (simp add: growthInput_def)
  then show "map_option (map_option (\<lambda>res. (columns res, rows res, map (placements res) [''c'', ''d''])))
     (optimisePackingLayout growthInput 150 100)
   = Some (Some (1, 1, [Some \<lparr>placeXMm = 90, placeYMm = 10\<rparr>,
                        Some \<lparr>placeXMm = 100, placeYMm = 0\<rparr>]))"
    by (simp add: optimiser_eval pack_eval growthInput_def)
qed (simp_all add: growthInput_def pack_eval)

section \<open>Facts about sheet tiling\<close>

subsection \<open>Coverage of one object\<close>

lemma cellCovers_iff:
  "cellCovers textures sheet r c object p \<longleftrightarrow>
     EPSILON < interWidth (intersectCell object sheet r c) \<and>
     EPSILON < interHeight (intersectCell object sheet r c) \<and>
     interLeft (intersectCell object sheet r c) \<le> fst p \<and>
     fst p < interRight (intersectCell object sheet r c) \<and>
     interTop (intersectCell object sheet r c) \<le> snd p \<and>
     snd p < interBottom (intersectCell object sheet r c)"
  by (auto simp: cellCovers_def drawCommandFor_def interWidth_def interHeight_def Let_def
      split: option.splits)

lemma in_cell_iff:
  assumes "0 < s"
  shows "real k * s \<le> x \<and> x < real k * s + s \<longleftrightarrow> 0 \<le> x \<and> nat \<lfloor>x / s\<rfloor> = k"
proof
  assume a: "real k * s \<le> x \<and> x < real k * s + s"
  then have "of_int (int k) \<le> x / s" and "x / s < of_int (int k) + 1"
    using assms by (simp_all add: pos_le_divide_eq pos_divide_less_eq algebra_simps)
  then have "\<lfloor>x / s\<rfloor> = int k" by (simp add: floor_eq_iff)
  moreover have "0 \<le> real k * s" using assms by simp
  then have "0 \<le> x" using a by linarith
  ultimately show "0 \<le> x \<and> nat \<lfloor>x / s\<rfloor> = k" by simp
next
  assume a: "0 \<le> x \<and> nat \<lfloor>x / s\<rfloor> = k"
  then have "0 \<le> x / s" using assms by simp
  then have "0 \<le> \<lfloor>x / s\<rfloor>" by simp
  then have "int (nat \<lfloor>x / s\<rfloor>) = \<lfloor>x / s\<rfloor>" by simp
  with a have "\<lfloor>x / s\<rfloor> = int k" by simp
  then have "of_int (int k) \<le> x / s" and "x / s < of_int (int k) + 1"
    by (simp_all add: floor_eq_iff)
  then show "real k * s \<le> x \<and> x < real k * s + s"
    using assms by (simp add: pos_le_divide_eq pos_divide_less_eq algebra_simps)
qed

lemma cell_index_less:
  assumes "0 < s" and "0 \<le> x"
  shows "nat \<lfloor>x / s\<rfloor> < n \<longleftrightarrow> x < real n * s"
proof -
  have "nat \<lfloor>x / s\<rfloor> < n \<longleftrightarrow> \<lfloor>x / s\<rfloor> < int n"
    using assms by (simp add: nat_less_iff)
  also have "\<dots> \<longleftrightarrow> x / s < of_int (int n)" by (rule floor_less_iff)
  also have "\<dots> \<longleftrightarrow> x < real n * s" using assms by (simp add: pos_divide_less_eq)
  finally show ?thesis .
qed

lemma cellCovers_cell:
  assumes "0 < sdWidthMm sheet" and "0 < sdHeightMm sheet"
  shows "cellCovers textures sheet r c object p \<longleftrightarrow>
     inObject object p \<and> 0 \<le> fst p \<and> 0 \<le> snd p \<and>
     columnOf sheet p = c \<and> rowOf sheet p = r \<and>
     EPSILON < interWidth (intersectCell object sheet r c) \<and>
     EPSILON < interHeight (intersectCell object sheet r c)"
proof -
  have x: "real c * sdWidthMm sheet \<le> fst p \<and> fst p < real c * sdWidthMm sheet + sdWidthMm sheet
             \<longleftrightarrow> 0 \<le> fst p \<and> columnOf sheet p = c"
    unfolding columnOf_def using assms(1) by (rule in_cell_iff)
  have y: "real r * sdHeightMm sheet \<le> snd p \<and> snd p < real r * sdHeightMm sheet + sdHeightMm sheet
             \<longleftrightarrow> 0 \<le> snd p \<and> rowOf sheet p = r"
    unfolding rowOf_def using assms(2) by (rule in_cell_iff)
  have main: "cellCovers textures sheet r c object p \<longleftrightarrow>
     inObject object p \<and>
     (real c * sdWidthMm sheet \<le> fst p \<and> fst p < real c * sdWidthMm sheet + sdWidthMm sheet) \<and>
     (real r * sdHeightMm sheet \<le> snd p \<and> snd p < real r * sdHeightMm sheet + sdHeightMm sheet) \<and>
     EPSILON < interWidth (intersectCell object sheet r c) \<and>
     EPSILON < interHeight (intersectCell object sheet r c)"
    unfolding cellCovers_iff
    by (auto simp: intersectCell_def inObject_def Let_def)
  from main x y show ?thesis by blast
qed

text \<open>
  Claim C4, as the code has it. For positive sheet dimensions, a point is covered by the
  rectangle emitted for some cell of the grid exactly when it lies in the object, in the
  grid, and the object's intersection with the cell holding the point exceeds
  \<open>EPSILON\<close> in both dimensions. No point is covered by two cells.
\<close>

theorem tiling_covers_object_in_grid_except_slivers:
  assumes "0 < sdWidthMm sheet" and "0 < sdHeightMm sheet"
  shows "((\<exists>r<rws. \<exists>c<cols. cellCovers textures sheet r c object p) \<longleftrightarrow>
            inObject object p \<and> inGrid sheet cols rws p \<and>
            EPSILON < interWidth (intersectCell object sheet (rowOf sheet p) (columnOf sheet p)) \<and>
            EPSILON < interHeight (intersectCell object sheet (rowOf sheet p) (columnOf sheet p))) \<and>
         (cellCovers textures sheet r c object p \<and> cellCovers textures sheet r' c' object p
            \<longrightarrow> r = r' \<and> c = c')"
proof (rule conjI)
  show "(\<exists>r<rws. \<exists>c<cols. cellCovers textures sheet r c object p) \<longleftrightarrow>
            inObject object p \<and> inGrid sheet cols rws p \<and>
            EPSILON < interWidth (intersectCell object sheet (rowOf sheet p) (columnOf sheet p)) \<and>
            EPSILON < interHeight (intersectCell object sheet (rowOf sheet p) (columnOf sheet p))"
    (is "?L \<longleftrightarrow> ?R")
  proof
    assume ?L
    then obtain r c where rc: "r < rws" "c < cols" "cellCovers textures sheet r c object p"
      by blast
    from rc(3) have cov: "inObject object p" "0 \<le> fst p" "0 \<le> snd p"
      "columnOf sheet p = c" "rowOf sheet p = r"
      "EPSILON < interWidth (intersectCell object sheet r c)"
      "EPSILON < interHeight (intersectCell object sheet r c)"
      unfolding cellCovers_cell [OF assms] by simp_all
    have "fst p < real cols * sdWidthMm sheet"
      using cell_index_less [OF assms(1) cov(2), of cols] rc(2) cov(4)
      by (simp add: columnOf_def)
    moreover have "snd p < real rws * sdHeightMm sheet"
      using cell_index_less [OF assms(2) cov(3), of rws] rc(1) cov(5)
      by (simp add: rowOf_def)
    ultimately show ?R using cov by (simp add: inGrid_def)
  next
    assume R: ?R
    then have g: "0 \<le> fst p" "fst p < real cols * sdWidthMm sheet"
      "0 \<le> snd p" "snd p < real rws * sdHeightMm sheet"
      by (simp_all add: inGrid_def)
    have "columnOf sheet p < cols"
      using cell_index_less [OF assms(1) g(1), of cols] g(2) by (simp add: columnOf_def)
    moreover have "rowOf sheet p < rws"
      using cell_index_less [OF assms(2) g(3), of rws] g(4) by (simp add: rowOf_def)
    moreover have "cellCovers textures sheet (rowOf sheet p) (columnOf sheet p) object p"
      unfolding cellCovers_cell [OF assms] using R g by simp
    ultimately show ?L by blast
  qed
next
  show "cellCovers textures sheet r c object p \<and> cellCovers textures sheet r' c' object p
          \<longrightarrow> r = r' \<and> c = c'"
    unfolding cellCovers_cell [OF assms] by auto
qed

text \<open>
  Claim C4 as written (the union is the whole of object and grid) fails for the sliver:
  the point lies in the object and in the two-sheet grid, and neither sheet covers it.
\<close>

theorem tiling_misses_sliver:
  "inObject sliverObject (100 + 2 / 100000, 50) \<and>
   inGrid squareSheet 2 1 (100 + 2 / 100000, 50) \<and>
   \<not> cellCovers Map.empty squareSheet 0 0 sliverObject (100 + 2 / 100000, 50) \<and>
   \<not> cellCovers Map.empty squareSheet 0 1 sliverObject (100 + 2 / 100000, 50)"
  by (simp add: cellCovers_def drawCommandFor_def intersectCell_def interWidth_def
      interHeight_def inObject_def inGrid_def sliverObject_def squareSheet_def EPSILON_def Let_def)

theorem tiling_covers_object_in_grid_except_slivers_witness:
  "(\<exists>r<1. \<exists>c<2. cellCovers Map.empty squareSheet r c sliverObject (30, 50)) \<and>
   \<not> (\<exists>r<1. \<exists>c<2. cellCovers Map.empty squareSheet r c sliverObject (100 + 2 / 100000, 50))"
proof -
  have w: "0 < sdWidthMm squareSheet" and h: "0 < sdHeightMm squareSheet"
    by (simp_all add: squareSheet_def)
  have a: "\<exists>r<1. \<exists>c<2. cellCovers Map.empty squareSheet r c sliverObject (30, 50)"
    unfolding tiling_covers_object_in_grid_except_slivers [OF w h, THEN conjunct1]
    by (simp add: inObject_def inGrid_def rowOf_def columnOf_def intersectCell_def
        interWidth_def interHeight_def sliverObject_def squareSheet_def EPSILON_def Let_def)
  have b: "\<not> (\<exists>r<1. \<exists>c<2. cellCovers Map.empty squareSheet r c sliverObject (100 + 2 / 100000, 50))"
    unfolding tiling_covers_object_in_grid_except_slivers [OF w h, THEN conjunct1]
    by (simp add: inObject_def inGrid_def rowOf_def columnOf_def intersectCell_def
        interWidth_def interHeight_def sliverObject_def squareSheet_def EPSILON_def Let_def)
  from a b show ?thesis by blast
qed

subsection \<open>Page emission\<close>

lemma fold_pushCommand:
  "fold (pushCommand textures sheet r c) objects acc
     = acc @ List.map_filter (drawCommandFor textures sheet r c) objects"
  by (induction objects arbitrary: acc)
     (simp_all add: pushCommand_def List.map_filter_simps split: option.splits)

lemma cellCommands_map_filter:
  "cellCommands textures objects sheet r c
     = List.map_filter (drawCommandFor textures sheet r c) objects"
  by (simp add: cellCommands_def fold_pushCommand)

lemma drawCommandFor_None_iff:
  "drawCommandFor textures sheet r c object = None \<longleftrightarrow>
     interWidth (intersectCell object sheet r c) \<le> EPSILON \<or>
     interHeight (intersectCell object sheet r c) \<le> EPSILON"
  by (simp add: drawCommandFor_def Let_def split: option.splits)

lemma cellCommands_nonempty_iff:
  "cellCommands textures objects sheet r c \<noteq> [] \<longleftrightarrow>
     (\<exists>object\<in>set objects.
        EPSILON < interWidth (intersectCell object sheet r c) \<and>
        EPSILON < interHeight (intersectCell object sheet r c))"
proof -
  have "cellCommands textures objects sheet r c \<noteq> [] \<longleftrightarrow>
          (\<exists>object\<in>set objects. drawCommandFor textures sheet r c object \<noteq> None)"
    by (auto simp: cellCommands_map_filter List.map_filter_def filter_empty_conv)
  then show ?thesis
    by (simp add: drawCommandFor_None_iff not_le)
qed

lemma emitCell_pageState:
  "emitCell textures objects sheet r c (pageState pages) =
     pageState (pages @ (if cellCommands textures objects sheet r c = [] then []
                         else [cellCommands textures objects sheet r c]))"
  by (simp add: emitCell_def pageState_def initialExportState_def drawOnCurrentPage_def Let_def)

lemma fold_emitCell_pageState:
  "fold (emitCell textures objects sheet r) cs (pageState pages) =
     pageState (pages @ map (\<lambda>(r, c). cellCommands textures objects sheet r c)
                         (filter (\<lambda>(r, c). cellCommands textures objects sheet r c \<noteq> [])
                            (map (Pair r) cs)))"
proof (induction cs arbitrary: pages)
  case Nil
  show ?case by simp
next
  case (Cons c cs)
  show ?case
    by (simp add: emitCell_pageState Cons.IH)
qed

lemma fold_emitRow_pageState:
  "fold (emitRow textures objects sheet cols) rs (pageState pages) =
     pageState (pages @ map (\<lambda>(r, c). cellCommands textures objects sheet r c)
                         (filter (\<lambda>(r, c). cellCommands textures objects sheet r c \<noteq> [])
                            (List.product rs [0..<cols])))"
proof (induction rs arbitrary: pages)
  case Nil
  show ?case by simp
next
  case (Cons r rs)
  show ?case
    by (simp add: emitRow_def fold_emitCell_pageState Cons.IH [unfolded emitRow_def])
qed

lemma export_rows_pageState:
  "fold (emitRow textures objects sheet cols) [0..<rws] initialExportState =
     pageState (map (\<lambda>(r, c). cellCommands textures objects sheet r c)
                  (nonEmptyCells textures objects sheet cols rws))"
  using fold_emitRow_pageState [of textures objects sheet cols "[0..<rws]" "[]"]
  by (simp add: pageState_def nonEmptyCells_def)

lemma hasAnyPage_pageState: "hasAnyPage (pageState pages) \<longleftrightarrow> pages \<noteq> []"
  by (simp add: pageState_def initialExportState_def)

lemma docPages_pageState: "pages \<noteq> [] \<Longrightarrow> docPages (pageState pages) = pages"
  by (simp add: pageState_def)

lemma set_nonEmptyCells:
  "(r, c) \<in> set (nonEmptyCells textures objects sheet cols rws) \<longleftrightarrow>
     r < rws \<and> c < cols \<and> cellCommands textures objects sheet r c \<noteq> []"
  by (auto simp: nonEmptyCells_def)

lemma distinct_nonEmptyCells:
  "distinct (nonEmptyCells textures objects sheet cols rws)"
  by (simp add: nonEmptyCells_def distinct_product)

text \<open>
  Claim C5. The saved document consists of the command lists of the non-empty cells, one
  page each, in row-major order; a cell is non-empty exactly when some object's
  intersection with it exceeds \<open>EPSILON\<close> in both dimensions. So the page count is the
  number of non-empty cells, and when every object misses every cell there is no page
  and nothing is saved.
\<close>

theorem exportLayoutToPdf_pages:
  "exportLayoutToPdf textures objects sheet cols rws =
     (if objects = [] then AlertNoObjects
      else if nonEmptyCells textures objects sheet cols rws = [] then AlertNothingToExport
      else Saved (map (\<lambda>(r, c). cellCommands textures objects sheet r c)
                    (nonEmptyCells textures objects sheet cols rws))) \<and>
   set (nonEmptyCells textures objects sheet cols rws) =
     {(r, c). r < rws \<and> c < cols \<and>
        (\<exists>object\<in>set objects.
           EPSILON < interWidth (intersectCell object sheet r c) \<and>
           EPSILON < interHeight (intersectCell object sheet r c))} \<and>
   distinct (nonEmptyCells textures objects sheet cols rws) \<and>
   length (map (\<lambda>(r, c). cellCommands textures objects sheet r c)
             (nonEmptyCells textures objects sheet cols rws))
     = card {(r, c). r < rws \<and> c < cols \<and> cellCommands textures objects sheet r c \<noteq> []} \<and>
   ((\<forall>object\<in>set objects. \<forall>r<rws. \<forall>c<cols.
        interWidth (intersectCell object sheet r c) \<le> 0 \<or>
        interHeight (intersectCell object sheet r c) \<le> 0) \<longrightarrow>
      nonEmptyCells textures objects sheet cols rws = [])"
proof (intro conjI impI)
  let ?cells = "nonEmptyCells textures objects sheet cols rws"
  let ?pages = "map (\<lambda>(r, c). cellCommands textures objects sheet r c) ?cells"
  show "exportLayoutToPdf textures objects sheet cols rws =
     (if objects = [] then AlertNoObjects
      else if ?cells = [] then AlertNothingToExport else Saved ?pages)"
    by (simp add: exportLayoutToPdf_def export_rows_pageState hasAnyPage_pageState
        docPages_pageState Let_def)
  show cells: "set ?cells =
     {(r, c). r < rws \<and> c < cols \<and>
        (\<exists>object\<in>set objects.
           EPSILON < interWidth (intersectCell object sheet r c) \<and>
           EPSILON < interHeight (intersectCell object sheet r c))}"
    by (auto simp: set_nonEmptyCells cellCommands_nonempty_iff)
  show "distinct ?cells" by (rule distinct_nonEmptyCells)
  have "set ?cells = {(r, c). r < rws \<and> c < cols \<and> cellCommands textures objects sheet r c \<noteq> []}"
    by (auto simp: set_nonEmptyCells)
  then show "length ?pages
     = card {(r, c). r < rws \<and> c < cols \<and> cellCommands textures objects sheet r c \<noteq> []}"
    using distinct_card [OF distinct_nonEmptyCells [of textures objects sheet cols rws]]
    by simp
  assume outside: "\<forall>object\<in>set objects. \<forall>r<rws. \<forall>c<cols.
        interWidth (intersectCell object sheet r c) \<le> 0 \<or>
        interHeight (intersectCell object sheet r c) \<le> 0"
  have "set ?cells = {}"
    unfolding cells using outside by (fastforce simp: EPSILON_def)
  then show "?cells = []" by simp
qed

theorem exportLayoutToPdf_pages_witness:
  "exportLayoutToPdf Map.empty [farAwayObject] squareSheet 4 2 = AlertNothingToExport"
proof -
  have "interWidth (intersectCell farAwayObject squareSheet r c) \<le> 0" for r c
    by (simp add: intersectCell_def interWidth_def farAwayObject_def squareSheet_def)
  then have "\<forall>object\<in>set [farAwayObject]. \<forall>r<2. \<forall>c<4.
        interWidth (intersectCell object squareSheet r c) \<le> 0 \<or>
        interHeight (intersectCell object squareSheet r c) \<le> 0"
    by simp
  with exportLayoutToPdf_pages [of Map.empty "[farAwayObject]" squareSheet 4 2]
  show ?thesis by simp
qed

section \<open>Facts about texture sampling\<close>

lemma max_one_min_within:
  "a + max 1 (min (W - a) b) \<le> W \<longleftrightarrow> a + 1 \<le> W" for a b W :: real
  by (auto simp: max_def min_def)

lemma textureCrop_fields:
  "sxFloat (textureCrop object texture i)
     = max 0 ((interLeft i - xMm object) * (real (widthPx texture) / widthMm object))"
  "syFloat (textureCrop object texture i)
     = max 0 ((interTop i - yMm object) * (real (heightPx texture) / heightMm object))"
  "sWidthFloat (textureCrop object texture i)
     = max 1 (min (real (widthPx texture) - sxFloat (textureCrop object texture i))
                (interWidth i * (real (widthPx texture) / widthMm object)))"
  "sHeightFloat (textureCrop object texture i)
     = max 1 (min (real (heightPx texture) - syFloat (textureCrop object texture i))
                (interHeight i * (real (heightPx texture) / heightMm object)))"
  unfolding textureCrop_def Let_def by simp_all

text \<open>
  Claim C9, as the code has it. The crop origin is the stated maximum and is never
  negative, and the crop is at least one pixel wide and high. The crop ends inside the
  source raster exactly when a whole pixel is left past its origin; otherwise the
  one-pixel minimum wins over the raster bound.
\<close>

theorem textureCrop_bounds:
  "sxFloat (textureCrop object texture i)
     = max 0 ((interLeft i - xMm object) * (real (widthPx texture) / widthMm object)) \<and>
   syFloat (textureCrop object texture i)
     = max 0 ((interTop i - yMm object) * (real (heightPx texture) / heightMm object)) \<and>
   0 \<le> sxFloat (textureCrop object texture i) \<and>
   0 \<le> syFloat (textureCrop object texture i) \<and>
   1 \<le> sWidthFloat (textureCrop object texture i) \<and>
   1 \<le> sHeightFloat (textureCrop object texture i) \<and>
   (sxFloat (textureCrop object texture i) + sWidthFloat (textureCrop object texture i)
      \<le> real (widthPx texture)
    \<longleftrightarrow> sxFloat (textureCrop object texture i) + 1 \<le> real (widthPx texture)) \<and>
   (syFloat (textureCrop object texture i) + sHeightFloat (textureCrop object texture i)
      \<le> real (heightPx texture)
    \<longleftrightarrow> syFloat (textureCrop object texture i) + 1 \<le> real (heightPx texture))"
proof (intro conjI)
  show "sxFloat (textureCrop object texture i) + sWidthFloat (textureCrop object texture i)
      \<le> real (widthPx texture)
    \<longleftrightarrow> sxFloat (textureCrop object texture i) + 1 \<le> real (widthPx texture)"
    unfolding textureCrop_fields(3) by (rule max_one_min_within)
  show "syFloat (textureCrop object texture i) + sHeightFloat (textureCrop object texture i)
      \<le> real (heightPx texture)
    \<longleftrightarrow> syFloat (textureCrop object texture i) + 1 \<le> real (heightPx texture)"
    unfolding textureCrop_fields(4) by (rule max_one_min_within)
qed (simp_all add: textureCrop_fields)

lemma stripObject_last_cell:
  "interLeft (intersectCell stripObject squareSheet 0 19) = 1900"
  "interWidth (intersectCell stripObject squareSheet 0 19) = 100"
  "interHeight (intersectCell stripObject squareSheet 0 19) = 100"
  by (simp_all add: intersectCell_def interWidth_def interHeight_def stripObject_def
      squareSheet_def Let_def)

text \<open>
  Claim C9 as written (the crop never leaves the raster) fails on the last sheet of the
  strip: the origin is at pixel 9.5 of 10 and the crop is one pixel wide.
\<close>

theorem textureCrop_overruns_source:
  "EPSILON < interWidth (intersectCell stripObject squareSheet 0 19) \<and>
   EPSILON < interHeight (intersectCell stripObject squareSheet 0 19) \<and>
   real (widthPx thumbnail)
     < sxFloat (textureCrop stripObject thumbnail (intersectCell stripObject squareSheet 0 19))
       + sWidthFloat (textureCrop stripObject thumbnail (intersectCell stripObject squareSheet 0 19))"
  by (simp add: textureCrop_fields stripObject_last_cell EPSILON_def)
     (simp add: stripObject_def thumbnail_def)

theorem textureCrop_bounds_witness:
  "sxFloat (textureCrop stripObject thumbnail (intersectCell stripObject squareSheet 0 19)) = 19 / 2 \<and>
   sWidthFloat (textureCrop stripObject thumbnail (intersectCell stripObject squareSheet 0 19)) = 1 \<and>
   \<not> sxFloat (textureCrop stripObject thumbnail (intersectCell stripObject squareSheet 0 19))
       + sWidthFloat (textureCrop stripObject thumbnail (intersectCell stripObject squareSheet 0 19))
       \<le> real (widthPx thumbnail)"
proof -
  let ?crop = "textureCrop stripObject thumbnail (intersectCell stripObject squareSheet 0 19)"
  have sx: "sxFloat ?crop = 19 / 2"
    by (simp add: textureCrop_fields stripObject_last_cell) (simp add: stripObject_def thumbnail_def)
  have sw: "sWidthFloat ?crop = 1"
    by (simp add: textureCrop_fields stripObject_last_cell) (simp add: stripObject_def thumbnail_def)
  have "(sxFloat ?crop + sWidthFloat ?crop \<le> real (widthPx thumbnail))
          = (sxFloat ?crop + 1 \<le> real (widthPx thumbnail))"
    using textureCrop_bounds [of stripObject thumbnail "intersectCell stripObject squareSheet 0 19"]
    by blast
  also have "\<dots> = False"
    unfolding sx by (simp add: thumbnail_def)
  finally show ?thesis using sx sw by simp
qed

end
